theory Spec2Isabelle
  imports Main
begin

section \<open>Memory model\<close>

text \<open>
  The container of \<^verbatim>\<open>LinkedList.h\<close> is a ring of heap nodes, and its operations
  communicate through pointers, so the model keeps an explicit store. A \<^verbatim>\<open>Node*\<close> is
  an optional address (\<open>None\<close> is \<^verbatim>\<open>nullptr\<close>); the heap maps the addresses of live nodes
  to their contents; every \<^verbatim>\<open>LinkedList\<close> object has an identity, so that a call such as
  \<^verbatim>\<open>a.mergeWith(b)\<close> reads and writes the fields of the objects it names, whether or not
  they are the same object.

  Names follow the source. The private fields \<^verbatim>\<open>head_\<close>, \<^verbatim>\<open>tail_\<close>, \<^verbatim>\<open>sz_\<close> lose the
  trailing underscore, \<^verbatim>\<open>next\<close> is written \<open>nxt\<close>, and \<^verbatim>\<open>append\<close>, \<^verbatim>\<open>rotate\<close>,
  \<^verbatim>\<open>size\<close>, \<^verbatim>\<open>empty\<close> carry the suffix \<open>_op\<close> because the list library owns the
  plain names.

  \<^verbatim>\<open>sz_\<close> is a \<^verbatim>\<open>std::size_t\<close>. It is modelled by a natural number: the nodes a ring
  counts are distinct live objects of several bytes each, so their number stays below the
  largest \<^verbatim>\<open>size_t\<close> and none of the additions on \<^verbatim>\<open>sz_\<close> wraps.
\<close>

type_synonym addr = nat
type_synonym ptr = "addr option"
type_synonym lid = nat

record 'a Node =
  data :: 'a
  nxt :: ptr

record LinkedList =
  head :: ptr
  tail :: ptr
  sz :: nat

text \<open>
  \<open>avail\<close> is the allocator's free list: \<^verbatim>\<open>new\<close> takes the first address on it and
  throws \<^verbatim>\<open>std::bad_alloc\<close> when it is empty, \<^verbatim>\<open>delete\<close> puts the address back.
\<close>

record 'a state =
  heap :: "addr \<rightharpoonup> 'a Node"
  avail :: "addr list"
  lists :: "lid \<Rightarrow> LinkedList"

text \<open>
  Errors. \<open>NullDeref\<close> and \<open>Dangling\<close> stand for the undefined behaviour of following a
  null pointer or a pointer to a node that is not live; \<open>AssertFailed\<close> is a failed
  \<^verbatim>\<open>assert\<close>; \<open>BadAlloc\<close> is the exception of \<^verbatim>\<open>new\<close> and carries the program state
  at the moment it is thrown.
\<close>

datatype 'a error = NullDeref | Dangling | AssertFailed | BadAlloc "'a state"

definition head_of :: "lid \<Rightarrow> 'a state \<Rightarrow> ptr" where
  "head_of l s = head (lists s l)"

definition tail_of :: "lid \<Rightarrow> 'a state \<Rightarrow> ptr" where
  "tail_of l s = tail (lists s l)"

definition sz_of :: "lid \<Rightarrow> 'a state \<Rightarrow> nat" where
  "sz_of l s = sz (lists s l)"

definition set_head :: "lid \<Rightarrow> ptr \<Rightarrow> 'a state \<Rightarrow> 'a state" where
  "set_head l p s = s\<lparr>lists := (lists s)(l := (lists s l)\<lparr>head := p\<rparr>)\<rparr>"

definition set_tail :: "lid \<Rightarrow> ptr \<Rightarrow> 'a state \<Rightarrow> 'a state" where
  "set_tail l p s = s\<lparr>lists := (lists s)(l := (lists s l)\<lparr>tail := p\<rparr>)\<rparr>"

definition set_sz :: "lid \<Rightarrow> nat \<Rightarrow> 'a state \<Rightarrow> 'a state" where
  "set_sz l n s = s\<lparr>lists := (lists s)(l := (lists s l)\<lparr>sz := n\<rparr>)\<rparr>"

text \<open>\<^verbatim>\<open>new Node(value)\<close>: the constructor stores the value and a null \<^verbatim>\<open>next\<close>.\<close>

definition new_Node :: "'a \<Rightarrow> 'a state \<Rightarrow> 'a error + addr \<times> 'a state" where
  "new_Node v s =
     (case avail s of
        [] \<Rightarrow> Inl (BadAlloc s)
      | a # rest \<Rightarrow>
          Inr (a, s\<lparr>heap := (heap s)(a \<mapsto> \<lparr>data = v, nxt = None\<rparr>), avail := rest\<rparr>))"

text \<open>\<^verbatim>\<open>delete p\<close>: nothing for a null pointer, undefined for a pointer to no live node.\<close>

definition delete :: "ptr \<Rightarrow> 'a state \<Rightarrow> 'a error + 'a state" where
  "delete p s =
     (case p of
        None \<Rightarrow> Inr s
      | Some a \<Rightarrow>
          (case heap s a of
             None \<Rightarrow> Inl Dangling
           | Some nd \<Rightarrow> Inr (s\<lparr>heap := (heap s)(a := None), avail := a # avail s\<rparr>)))"

text \<open>Reading \<^verbatim>\<open>p->next\<close> and \<^verbatim>\<open>p->data\<close>, writing \<^verbatim>\<open>p->next = q\<close>.\<close>

definition get_next :: "ptr \<Rightarrow> 'a state \<Rightarrow> 'a error + ptr" where
  "get_next p s =
     (case p of
        None \<Rightarrow> Inl NullDeref
      | Some a \<Rightarrow> (case heap s a of None \<Rightarrow> Inl Dangling | Some nd \<Rightarrow> Inr (nxt nd)))"

definition get_data :: "ptr \<Rightarrow> 'a state \<Rightarrow> 'a error + 'a" where
  "get_data p s =
     (case p of
        None \<Rightarrow> Inl NullDeref
      | Some a \<Rightarrow> (case heap s a of None \<Rightarrow> Inl Dangling | Some nd \<Rightarrow> Inr (data nd)))"

definition set_next :: "ptr \<Rightarrow> ptr \<Rightarrow> 'a state \<Rightarrow> 'a error + 'a state" where
  "set_next p q s =
     (case p of
        None \<Rightarrow> Inl NullDeref
      | Some a \<Rightarrow>
          (case heap s a of
             None \<Rightarrow> Inl Dangling
           | Some nd \<Rightarrow> Inr (s\<lparr>heap := (heap s)(a \<mapsto> nd\<lparr>nxt := q\<rparr>)\<rparr>)))"

section \<open>The operations of \<^verbatim>\<open>LinkedList\<close>\<close>

text \<open>
  Every member function takes the identity of its receiver first. The model is the default
  build, in which \<^verbatim>\<open>NDEBUG\<close> is not defined and \<^verbatim>\<open>_checkInvariant\<close> runs where the
  source calls it.
\<close>

definition make_single :: "lid \<Rightarrow> ptr \<Rightarrow> 'a state \<Rightarrow> 'a error + 'a state" where
  "make_single this n s =
     (case set_next n n s of
        Inl e \<Rightarrow> Inl e
      | Inr s1 \<Rightarrow> Inr (set_sz this 1 (set_head this n (set_tail this n s1))))"

text \<open>The loop \<^verbatim>\<open>for (i = 0; i < sz_; ++i) cur = cur->next\<close>, by the number of rounds left.\<close>

primrec walk :: "nat \<Rightarrow> ptr \<Rightarrow> 'a state \<Rightarrow> 'a error + ptr" where
  "walk 0 cur s = Inr cur"
| "walk (Suc k) cur s =
     (case get_next cur s of Inl e \<Rightarrow> Inl e | Inr c \<Rightarrow> walk k c s)"

definition checkInvariant :: "lid \<Rightarrow> 'a state \<Rightarrow> 'a error + unit" where
  "checkInvariant this s =
     (if head_of this s = None then
        (if tail_of this s = None \<and> sz_of this s = 0 then Inr () else Inl AssertFailed)
      else if tail_of this s = None then Inl AssertFailed
      else
        (case get_next (tail_of this s) s of
           Inl e \<Rightarrow> Inl e
         | Inr tn \<Rightarrow>
             if tn \<noteq> head_of this s then Inl AssertFailed
             else
               (case walk (sz_of this s) (head_of this s) s of
                  Inl e \<Rightarrow> Inl e
                | Inr cur \<Rightarrow> if cur = head_of this s then Inr () else Inl AssertFailed)))"

text \<open>
  A call of \<^verbatim>\<open>_checkInvariant()\<close> as the last statement before a function returns \<open>r\<close>.
\<close>

definition checked :: "lid \<Rightarrow> 'r \<Rightarrow> 'a state \<Rightarrow> 'a error + 'r" where
  "checked this r s = (case checkInvariant this s of Inl e \<Rightarrow> Inl e | Inr u \<Rightarrow> Inr r)"

definition empty_op :: "lid \<Rightarrow> 'a state \<Rightarrow> bool" where
  "empty_op this s = (head_of this s = None)"

definition size_op :: "lid \<Rightarrow> 'a state \<Rightarrow> nat" where
  "size_op this s = sz_of this s"

text \<open>Both overloads of \<^verbatim>\<open>append\<close> (by copy and by move) run the same statements.\<close>

definition append_op :: "lid \<Rightarrow> 'a \<Rightarrow> 'a state \<Rightarrow> 'a error + 'a state" where
  "append_op this v s =
     (case new_Node v s of
        Inl e \<Rightarrow> Inl e
      | Inr (n, s1) \<Rightarrow>
          if head_of this s1 = None then make_single this (Some n) s1
          else
            (case set_next (Some n) (head_of this s1) s1 of
               Inl e \<Rightarrow> Inl e
             | Inr s2 \<Rightarrow>
                 (case set_next (tail_of this s2) (Some n) s2 of
                    Inl e \<Rightarrow> Inl e
                  | Inr s3 \<Rightarrow>
                      let s4 = set_tail this (Some n) s3;
                          s5 = set_sz this (sz_of this s4 + 1) s4
                      in checked this s5 s5)))"

definition pop_front :: "lid \<Rightarrow> 'a state \<Rightarrow> 'a error + bool \<times> 'a state" where
  "pop_front this s =
     (if head_of this s = None then Inr (False, s)
      else
        let old = head_of this s in
        if head_of this s = tail_of this s then
          (case delete old s of
             Inl e \<Rightarrow> Inl e
           | Inr s1 \<Rightarrow>
               let s2 = set_sz this 0 (set_head this None (set_tail this None s1))
               in checked this (True, s2) s2)
        else
          (case get_next (head_of this s) s of
             Inl e \<Rightarrow> Inl e
           | Inr hn \<Rightarrow>
               let s1 = set_head this hn s in
               (case set_next (tail_of this s1) (head_of this s1) s1 of
                  Inl e \<Rightarrow> Inl e
                | Inr s2 \<Rightarrow>
                    (case delete old s2 of
                       Inl e \<Rightarrow> Inl e
                     | Inr s3 \<Rightarrow>
                         let s4 = set_sz this (sz_of this s3 - 1) s3
                         in checked this (True, s4) s4))))"

definition rotate_op :: "lid \<Rightarrow> 'a state \<Rightarrow> 'a error + 'a state" where
  "rotate_op this s =
     (if head_of this s = None \<or> head_of this s = tail_of this s then Inr s
      else
        (case get_next (head_of this s) s of
           Inl e \<Rightarrow> Inl e
         | Inr hn \<Rightarrow>
             let s1 = set_head this hn s in
             (case get_next (tail_of this s1) s1 of
                Inl e \<Rightarrow> Inl e
              | Inr tn \<Rightarrow>
                  let s2 = set_tail this tn s1
                  in checked this s2 s2)))"

text \<open>
  \<^verbatim>\<open>front\<close> returns a reference to \<^verbatim>\<open>head_->data\<close>. A reference is the address of the node
  whose \<open>data\<close> it denotes; \<open>read_ref\<close> and \<open>write_ref\<close> are the accesses through it.
\<close>

definition front :: "lid \<Rightarrow> 'a state \<Rightarrow> 'a error + addr" where
  "front this s =
     (case head_of this s of
        None \<Rightarrow> Inl NullDeref
      | Some a \<Rightarrow> (case heap s a of None \<Rightarrow> Inl Dangling | Some nd \<Rightarrow> Inr a))"

definition read_ref :: "addr \<Rightarrow> 'a state \<Rightarrow> 'a error + 'a" where
  "read_ref r s = get_data (Some r) s"

definition write_ref :: "addr \<Rightarrow> 'a \<Rightarrow> 'a state \<Rightarrow> 'a error + 'a state" where
  "write_ref r v s =
     (case heap s r of
        None \<Rightarrow> Inl Dangling
      | Some nd \<Rightarrow> Inr (s\<lparr>heap := (heap s)(r \<mapsto> nd\<lparr>data := v\<rparr>)\<rparr>))"

text \<open>
  \<^verbatim>\<open>display\<close> writes to \<^verbatim>\<open>std::cout\<close>; the model returns the characters written. The
  element type's \<^verbatim>\<open>operator<<\<close> is the parameter \<open>shw\<close>. The loop keeps the index of the
  source, which decides where a separator is printed.
\<close>

function display_loop ::
  "nat \<Rightarrow> nat \<Rightarrow> ptr \<Rightarrow> ('a \<Rightarrow> string) \<Rightarrow> 'a state \<Rightarrow> string \<Rightarrow> 'a error + string" where
  "display_loop i n cur shw s out =
     (if i < n then
        (case get_data cur s of
           Inl e \<Rightarrow> Inl e
         | Inr d \<Rightarrow>
             let out1 = out @ shw d;
                 out2 = (if i + 1 < n then out1 @ '' -> '' else out1)
             in (case get_next cur s of
                   Inl e \<Rightarrow> Inl e
                 | Inr c \<Rightarrow> display_loop (i + 1) n c shw s out2))
      else Inr out)"
  by pat_completeness auto
termination
  by (relation "measure (\<lambda>(i, n, cur, shw, s, out). n - i)") auto

definition newline :: string where
  "newline = [CHR 0x0A]"

definition display :: "lid \<Rightarrow> ('a \<Rightarrow> string) \<Rightarrow> 'a state \<Rightarrow> 'a error + string" where
  "display this shw s =
     (if head_of this s = None then Inr (''[] (empty)'' @ newline)
      else
        (case display_loop 0 (sz_of this s) (head_of this s) shw s ''['' of
           Inl e \<Rightarrow> Inl e
         | Inr out \<Rightarrow> Inr (out @ ''] (circular)'' @ newline)))"

text \<open>
  \<^verbatim>\<open>forEach\<close>: the visitor is a function object that may carry state (the lambda of
  \<^verbatim>\<open>statsReport\<close> adds to a captured sum), so it is a step function on an accumulator.
\<close>

primrec forEach_loop ::
  "nat \<Rightarrow> ptr \<Rightarrow> ('a \<Rightarrow> 'b \<Rightarrow> 'b) \<Rightarrow> 'b \<Rightarrow> 'a state \<Rightarrow> 'a error + 'b" where
  "forEach_loop 0 cur f acc s = Inr acc"
| "forEach_loop (Suc k) cur f acc s =
     (case get_data cur s of
        Inl e \<Rightarrow> Inl e
      | Inr d \<Rightarrow>
          (case get_next cur s of
             Inl e \<Rightarrow> Inl e
           | Inr c \<Rightarrow> forEach_loop k c f (f d acc) s))"

definition forEach :: "lid \<Rightarrow> ('a \<Rightarrow> 'b \<Rightarrow> 'b) \<Rightarrow> 'b \<Rightarrow> 'a state \<Rightarrow> 'a error + 'b" where
  "forEach this f acc s =
     (if head_of this s = None then Inr acc
      else forEach_loop (sz_of this s) (head_of this s) f acc s)"

primrec clear_loop :: "nat \<Rightarrow> ptr \<Rightarrow> 'a state \<Rightarrow> 'a error + 'a state" where
  "clear_loop 0 cur s = Inr s"
| "clear_loop (Suc k) cur s =
     (case get_next cur s of
        Inl e \<Rightarrow> Inl e
      | Inr nx \<Rightarrow>
          (case delete cur s of
             Inl e \<Rightarrow> Inl e
           | Inr s1 \<Rightarrow> clear_loop k nx s1))"

definition clear :: "lid \<Rightarrow> 'a state \<Rightarrow> 'a error + 'a state" where
  "clear this s =
     (if head_of this s = None then Inr s
      else
        (case clear_loop (sz_of this s) (head_of this s) s of
           Inl e \<Rightarrow> Inl e
         | Inr s1 \<Rightarrow> Inr (set_sz this 0 (set_head this None (set_tail this None s1)))))"

text \<open>
  The slow/fast walk of \<^verbatim>\<open>splitIntoTwo\<close> is bounded by nothing but the shape of the heap,
  so it is a partial function: \<open>None\<close> is a walk that never ends. The first argument is
  \<^verbatim>\<open>head_\<close>, which the loop only reads.
\<close>

partial_function (option) split_loop ::
  "ptr \<Rightarrow> ptr \<Rightarrow> ptr \<Rightarrow> 'a state \<Rightarrow> ('a error + ptr \<times> ptr) option" where
  "split_loop h slow fast s =
     (case get_next fast s of
        Inl e \<Rightarrow> Some (Inl e)
      | Inr fn \<Rightarrow>
          if fn = h then Some (Inr (slow, fast))
          else
            (case get_next fn s of
               Inl e \<Rightarrow> Some (Inl e)
             | Inr fnn \<Rightarrow>
                 if fnn = h then Some (Inr (slow, fast))
                 else
                   (case get_next slow s of
                      Inl e \<Rightarrow> Some (Inl e)
                    | Inr sn \<Rightarrow>
                        (case get_next fast s of
                           Inl e \<Rightarrow> Some (Inl e)
                         | Inr fn' \<Rightarrow>
                             (case get_next fn' s of
                                Inl e \<Rightarrow> Some (Inl e)
                              | Inr fnn' \<Rightarrow> split_loop h sn fnn' s)))))"

declare split_loop.simps [code]

text \<open>The statements of \<^verbatim>\<open>splitIntoTwo\<close> after the loop, from the even-length adjustment on.\<close>

definition split_finish ::
  "lid \<Rightarrow> lid \<Rightarrow> lid \<Rightarrow> ptr \<Rightarrow> ptr \<Rightarrow> 'a state \<Rightarrow> 'a error + 'a state" where
  "split_finish this first second slow fast0 s =
     (case get_next fast0 s of
        Inl e \<Rightarrow> Inl e
      | Inr fn \<Rightarrow>
          (case get_next fn s of
             Inl e \<Rightarrow> Inl e
           | Inr fnn \<Rightarrow>
               let fast = (if fnn = head_of this s then fn else fast0);
                   head1 = head_of this s;
                   tail1 = slow
               in (case get_next slow s of
                     Inl e \<Rightarrow> Inl e
                   | Inr head2 \<Rightarrow>
                       let tail2 = fast in
                       (case set_next tail1 head1 s of
                          Inl e \<Rightarrow> Inl e
                        | Inr s1 \<Rightarrow>
                            (case set_next tail2 head2 s1 of
                               Inl e \<Rightarrow> Inl e
                             | Inr s2 \<Rightarrow>
                                 let n1 = (sz_of this s2 + 1) div 2;
                                     n2 = sz_of this s2 - n1;
                                     s3 = set_sz first n1
                                            (set_tail first tail1 (set_head first head1 s2));
                                     s4 = set_sz second n2
                                            (set_tail second tail2 (set_head second head2 s3))
                                 in Inr (set_sz this 0
                                           (set_head this None (set_tail this None s4))))))))"

definition splitIntoTwo ::
  "lid \<Rightarrow> lid \<Rightarrow> lid \<Rightarrow> 'a state \<Rightarrow> ('a error + 'a state) option" where
  "splitIntoTwo this first second s =
     (case clear first s of
        Inl e \<Rightarrow> Some (Inl e)
      | Inr s1 \<Rightarrow>
          (case clear second s1 of
             Inl e \<Rightarrow> Some (Inl e)
           | Inr s2 \<Rightarrow>
               if head_of this s2 = None then Some (Inr s2)
               else if sz_of this s2 = 1 then
                 let s3 = set_head first (head_of this s2) s2;
                     s4 = set_tail first (tail_of this s3) s3;
                     s5 = set_sz first 1 s4
                 in (case set_next (tail_of first s5) (head_of first s5) s5 of
                       Inl e \<Rightarrow> Some (Inl e)
                     | Inr s6 \<Rightarrow>
                         Some (Inr (set_sz this 0
                                      (set_head this None (set_tail this None s6)))))
               else
                 (case split_loop (head_of this s2) (head_of this s2) (head_of this s2) s2 of
                    None \<Rightarrow> None
                  | Some (Inl e) \<Rightarrow> Some (Inl e)
                  | Some (Inr (slow, fast0)) \<Rightarrow>
                      Some (split_finish this first second slow fast0 s2))))"

definition mergeWith :: "lid \<Rightarrow> lid \<Rightarrow> 'a state \<Rightarrow> 'a error + 'a state" where
  "mergeWith this other s =
     (if empty_op other s then Inr s
      else if empty_op this s then
        let s1 = set_head this (head_of other s) s;
            s2 = set_tail this (tail_of other s1) s1;
            s3 = set_sz this (sz_of other s2) s2
        in Inr (set_sz other 0 (set_head other None (set_tail other None s3)))
      else
        let aHead = head_of this s;
            bHead = head_of other s
        in (case set_next (tail_of this s) bHead s of
              Inl e \<Rightarrow> Inl e
            | Inr s1 \<Rightarrow>
                (case set_next (tail_of other s1) aHead s1 of
                   Inl e \<Rightarrow> Inl e
                 | Inr s2 \<Rightarrow>
                     let s3 = set_tail this (tail_of other s2) s2;
                         s4 = set_sz this (sz_of this s3 + sz_of other s3) s3;
                         s5 = set_sz other 0 (set_head other None (set_tail other None s4))
                     in checked this s5 s5)))"

section \<open>The console layer of \<^verbatim>\<open>main.cpp\<close>\<close>

text \<open>
  \<^verbatim>\<open>struct Robot\<close>. Its \<^verbatim>\<open>int\<close> fields are only compared and printed by the function
  modelled here, so they are integers; the field \<^verbatim>\<open>id\<close> is \<open>robot_id\<close> because \<open>id\<close>
  is the identity function.
\<close>

record Robot =
  robot_id :: int
  name :: string
  battery :: int
  drain :: int
  paused :: bool

text \<open>Decimal output of an \<^verbatim>\<open>int\<close>, as \<^verbatim>\<open>std::ostream\<close> prints it by default.\<close>

fun show_nat :: "nat \<Rightarrow> string" where
  "show_nat n =
     (if n < 10 then [''0123456789'' ! n]
      else show_nat (n div 10) @ [''0123456789'' ! (n mod 10)])"

definition show_int :: "int \<Rightarrow> string" where
  "show_int i = (if i < 0 then ''-'' @ show_nat (nat (- i)) else show_nat (nat i))"

text \<open>\<^verbatim>\<open>operator<<(std::ostream&, const Robot&)\<close>.\<close>

definition show_Robot :: "Robot \<Rightarrow> string" where
  "show_Robot r = ''Robot('' @ name r @ '', Battery='' @ show_int (battery r) @ '')''"

text \<open>
  The loop of \<^verbatim>\<open>togglePauseById\<close>. It returns the flag \<^verbatim>\<open>found\<close>, the text written to
  \<^verbatim>\<open>std::cout\<close> and the state. The source calls \<^verbatim>\<open>ring.front()\<close> once in the test, twice in
  the assignment and twice in the output statement. \<^verbatim>\<open>front\<close> changes nothing and no call
  lies between the test and the assignment, so the model takes the reference once for
  both, and once more for the output statement, after the write.
\<close>

function toggle_loop ::
  "nat \<Rightarrow> lid \<Rightarrow> int \<Rightarrow> Robot state \<Rightarrow> Robot error + bool \<times> string \<times> Robot state" where
  "toggle_loop i ring ident s =
     (if i < size_op ring s then
        (case front ring s of
           Inl e \<Rightarrow> Inl e
         | Inr r \<Rightarrow>
             (case read_ref r s of
                Inl e \<Rightarrow> Inl e
              | Inr rb \<Rightarrow>
                  if robot_id rb = ident then
                    (case write_ref r (rb\<lparr>paused := \<not> paused rb\<rparr>) s of
                       Inl e \<Rightarrow> Inl e
                     | Inr s1 \<Rightarrow>
                         (case front ring s1 of
                            Inl e \<Rightarrow> Inl e
                          | Inr r1 \<Rightarrow>
                              (case read_ref r1 s1 of
                                 Inl e \<Rightarrow> Inl e
                               | Inr rb1 \<Rightarrow>
                                   Inr (True,
                                        (if paused rb1 then ''Paused: '' else ''Resumed: '') @
                                          show_Robot rb1 @ newline,
                                        s1))))
                  else
                    (case rotate_op ring s of
                       Inl e \<Rightarrow> Inl e
                     | Inr s' \<Rightarrow> toggle_loop (i + 1) ring ident s')))
      else Inr (False, [], s))"
  by pat_completeness auto
termination
  by (relation "measure (\<lambda>(i, ring, ident, s). size_op ring s - i)")
     (auto simp: rotate_op_def size_op_def checked_def sz_of_def set_head_def set_tail_def
        Let_def split: if_splits sum.splits)

definition togglePauseById :: "lid \<Rightarrow> int \<Rightarrow> Robot state \<Rightarrow> Robot error + string \<times> Robot state" where
  "togglePauseById ring ident s =
     (if size_op ring s = 0 then Inr (''No robots.'' @ newline, s)
      else
        (case toggle_loop 0 ring ident s of
           Inl e \<Rightarrow> Inl e
         | Inr (found, out, s') \<Rightarrow>
             Inr (if \<not> found then out @ ''Not found.'' @ newline else out, s')))"

section \<open>Callers\<close>

text \<open>
  A program that has constructed its \<^verbatim>\<open>LinkedList\<close> objects (\<^verbatim>\<open>LinkedList() = default\<close>:
  null \<^verbatim>\<open>head_\<close> and \<^verbatim>\<open>tail_\<close>, \<^verbatim>\<open>sz_\<close> zero) and allocated no node, with the given
  addresses free.
\<close>

definition init_state :: "addr list \<Rightarrow> 'a state" where
  "init_state free =
     \<lparr>heap = Map.empty, avail = free, lists = (\<lambda>l. \<lparr>head = None, tail = None, sz = 0\<rparr>)\<rparr>"

text \<open>The same state-changing call made \<open>k\<close> times in a row.\<close>

primrec repeat_op :: "nat \<Rightarrow> ('s \<Rightarrow> 'e + 's) \<Rightarrow> 's \<Rightarrow> 'e + 's" where
  "repeat_op 0 f s = Inr s"
| "repeat_op (Suc k) f s = (case f s of Inl e \<Rightarrow> Inl e | Inr s' \<Rightarrow> repeat_op k f s')"

text \<open>\<^verbatim>\<open>append\<close> of each value of a list in turn.\<close>

primrec appends :: "lid \<Rightarrow> 'a list \<Rightarrow> 'a state \<Rightarrow> 'a error + 'a state" where
  "appends this [] s = Inr s"
| "appends this (v # vs) s =
     (case append_op this v s of Inl e \<Rightarrow> Inl e | Inr s' \<Rightarrow> appends this vs s')"

text \<open>\<open>k\<close> consecutive calls of \<^verbatim>\<open>pop_front\<close>, with the flags they return.\<close>

primrec pops :: "lid \<Rightarrow> nat \<Rightarrow> 'a state \<Rightarrow> 'a error + bool list \<times> 'a state" where
  "pops this 0 s = Inr ([], s)"
| "pops this (Suc k) s =
     (case pop_front this s of
        Inl e \<Rightarrow> Inl e
      | Inr (b, s') \<Rightarrow>
          (case pops this k s' of Inl e \<Rightarrow> Inl e | Inr (bs, s'') \<Rightarrow> Inr (b # bs, s'')))"

text \<open>
  One round of ``\<^verbatim>\<open>pop_front\<close> followed by \<^verbatim>\<open>append\<close> of the popped front element'':
  the caller reads the front element, removes it and appends it again. On an empty ring
  there is no front element and the round does nothing.
\<close>

definition pop_append :: "lid \<Rightarrow> 'a state \<Rightarrow> 'a error + 'a state" where
  "pop_append this s =
     (if empty_op this s then Inr s
      else
        (case front this s of
           Inl e \<Rightarrow> Inl e
         | Inr r \<Rightarrow>
             (case read_ref r s of
                Inl e \<Rightarrow> Inl e
              | Inr x \<Rightarrow>
                  (case pop_front this s of
                     Inl e \<Rightarrow> Inl e
                   | Inr (b, s1) \<Rightarrow> append_op this x s1))))"

text \<open>The element \<^verbatim>\<open>front()\<close> refers to.\<close>

definition front_value :: "lid \<Rightarrow> 'a state \<Rightarrow> 'a error + 'a" where
  "front_value this s = (case front this s of Inl e \<Rightarrow> Inl e | Inr r \<Rightarrow> read_ref r s)"


declare toggle_loop.simps [simp del]

declare show_nat.simps [simp del]

section \<open>Rings in the heap\<close>

text \<open>
  The abstraction the proofs use. \<open>path h p as q\<close>: following \<open>nxt\<close> from \<open>p\<close> visits
  exactly the live nodes \<open>as\<close> and arrives at \<open>q\<close>. \<open>ring s l as\<close>: the object \<open>l\<close>
  is the ring of the distinct nodes \<open>as\<close>, head first and tail last. \<open>elems\<close> are the
  elements stored in a list of nodes, \<open>to_list\<close> is the head-to-tail sequence as
  \<^verbatim>\<open>forEach\<close> visits it, \<open>heap_ok\<close> says that the free addresses are distinct and not
  live. The functions \<open>append_post\<close>, \<open>pop_post\<close>, \<open>rotate_post\<close>, \<open>clear_post\<close>,
  \<open>merge_post\<close>, \<open>split_pre\<close> and \<open>split_post\<close> name the state an operation leaves
  when it starts from a ring of the nodes \<open>as\<close>; the lemmas below prove that the
  operations compute them.
\<close>

primrec path :: "(addr \<rightharpoonup> 'a Node) \<Rightarrow> ptr \<Rightarrow> addr list \<Rightarrow> ptr \<Rightarrow> bool" where
  "path h p [] q = (p = q)"
| "path h p (a # as) q =
     (p = Some a \<and> (case h a of None \<Rightarrow> False | Some nd \<Rightarrow> path h (nxt nd) as q))"

definition first_ptr :: "addr list \<Rightarrow> ptr" where
  "first_ptr as = (case as of [] \<Rightarrow> None | a # rest \<Rightarrow> Some a)"

definition last_ptr :: "addr list \<Rightarrow> ptr" where
  "last_ptr as = (if as = [] then None else Some (last as))"

definition ring :: "'a state \<Rightarrow> lid \<Rightarrow> addr list \<Rightarrow> bool" where
  "ring s l as \<longleftrightarrow>
     head_of l s = first_ptr as \<and> tail_of l s = last_ptr as \<and> sz_of l s = length as \<and>
     distinct as \<and> path (heap s) (first_ptr as) as (first_ptr as)"

definition elems :: "'a state \<Rightarrow> addr list \<Rightarrow> 'a list" where
  "elems s as = map (\<lambda>a. data (the (heap s a))) as"

definition heap_ok :: "'a state \<Rightarrow> bool" where
  "heap_ok s \<longleftrightarrow> distinct (avail s) \<and> (\<forall>a \<in> set (avail s). heap s a = None)"

definition to_list :: "lid \<Rightarrow> 'a state \<Rightarrow> 'a error + 'a list" where
  "to_list this s = forEach this (\<lambda>x acc. acc @ [x]) [] s"

definition append_post :: "lid \<Rightarrow> 'a \<Rightarrow> addr list \<Rightarrow> 'a state \<Rightarrow> 'a state" where
  "append_post l v as s =
     (let a = hd (avail s);
          h1 = (heap s)(a \<mapsto> \<lparr>data = v, nxt = Some (hd (as @ [a]))\<rparr>);
          h2 = (if as = [] then h1 else h1(last as \<mapsto> (the (heap s (last as)))\<lparr>nxt := Some a\<rparr>))
      in s\<lparr>heap := h2, avail := tl (avail s),
           lists := (lists s)(l := \<lparr>head = Some (hd (as @ [a])), tail = Some a, sz = Suc (length as)\<rparr>)\<rparr>)"

definition pop_post :: "lid \<Rightarrow> addr list \<Rightarrow> 'a state \<Rightarrow> 'a state" where
  "pop_post l as s =
     (let a = hd as; rest = tl as;
          h1 = (if rest = [] then heap s
                else (heap s)(last as \<mapsto> (the (heap s (last as)))\<lparr>nxt := first_ptr rest\<rparr>))
      in s\<lparr>heap := h1(a := None), avail := a # avail s,
           lists := (lists s)(l := \<lparr>head = first_ptr rest, tail = last_ptr rest, sz = length rest\<rparr>)\<rparr>)"

definition rotate_post :: "lid \<Rightarrow> addr list \<Rightarrow> 'a state \<Rightarrow> 'a state" where
  "rotate_post l as s =
     s\<lparr>lists := (lists s)(l := \<lparr>head = first_ptr (rotate1 as), tail = last_ptr (rotate1 as),
                                sz = length as\<rparr>)\<rparr>"

definition rot_post :: "lid \<Rightarrow> addr list \<Rightarrow> nat \<Rightarrow> 'a state \<Rightarrow> 'a state" where
  "rot_post l as k s =
     s\<lparr>lists := (lists s)(l := \<lparr>head = first_ptr (rotate k as), tail = last_ptr (rotate k as),
                                sz = length as\<rparr>)\<rparr>"

definition released :: "addr list \<Rightarrow> 'a state \<Rightarrow> 'a state" where
  "released as s =
     s\<lparr>heap := (\<lambda>x. if x \<in> set as then None else heap s x), avail := rev as @ avail s\<rparr>"

definition clear_post :: "lid \<Rightarrow> addr list \<Rightarrow> 'a state \<Rightarrow> 'a state" where
  "clear_post l as s =
     (released as s)\<lparr>lists := (lists s)(l := \<lparr>head = None, tail = None, sz = 0\<rparr>)\<rparr>"

fun join :: "string \<Rightarrow> string list \<Rightarrow> string" where
  "join sep [] = []"
| "join sep [x] = x"
| "join sep (x # y # ys) = x @ sep @ join sep (y # ys)"

declare display_loop.simps [simp del]

definition merge_post :: "lid \<Rightarrow> lid \<Rightarrow> addr list \<Rightarrow> addr list \<Rightarrow> 'a state \<Rightarrow> 'a state" where
  "merge_post l l2 as bs s =
     (if bs = [] then s
      else
        s\<lparr>heap :=
            (if as = [] then heap s
             else (heap s)(last as \<mapsto> (the (heap s (last as)))\<lparr>nxt := first_ptr bs\<rparr>,
                           last bs \<mapsto> (the (heap s (last bs)))\<lparr>nxt := first_ptr as\<rparr>)),
          lists :=
            (lists s)(l := \<lparr>head = first_ptr (as @ bs), tail = last_ptr (as @ bs),
                             sz = length as + length bs\<rparr>,
                      l2 := \<lparr>head = None, tail = None, sz = 0\<rparr>)\<rparr>)"

definition split_post :: "lid \<Rightarrow> lid \<Rightarrow> lid \<Rightarrow> addr list \<Rightarrow> 'a state \<Rightarrow> 'a state" where
  "split_post this first second as s =
     (if as = [] then s
      else
        let n1 = (length as + 1) div 2;
            xs = take n1 as;
            ys = drop n1 as;
            h1 = (heap s)(last xs \<mapsto> (the (heap s (last xs)))\<lparr>nxt := first_ptr xs\<rparr>);
            h2 = (if ys = [] then h1
                  else h1(last ys \<mapsto> (the (heap s (last ys)))\<lparr>nxt := first_ptr ys\<rparr>))
        in s\<lparr>heap := h2,
             lists :=
               (lists s)(first := \<lparr>head = first_ptr xs, tail = last_ptr xs, sz = length xs\<rparr>,
                         second := \<lparr>head = first_ptr ys, tail = last_ptr ys, sz = length ys\<rparr>,
                         this := \<lparr>head = None, tail = None, sz = 0\<rparr>)\<rparr>)"

definition split_pre :: "lid \<Rightarrow> lid \<Rightarrow> addr list \<Rightarrow> addr list \<Rightarrow> 'a state \<Rightarrow> 'a state" where
  "split_pre first second bs cs s = clear_post second cs (clear_post first bs s)"

section \<open>The structural invariant\<close>

text \<open>
  The invariant in the words of the specification: \<^verbatim>\<open>head\<close> is absent iff \<^verbatim>\<open>tail\<close> is
  absent iff \<^verbatim>\<open>size == 0\<close>, and in a non-empty ring the tail's successor is the head and
  following the successor \<^verbatim>\<open>size\<close> times from the head returns to the head. The walk is
  the loop of \<^verbatim>\<open>_checkInvariant\<close>.
\<close>

definition invariant :: "lid \<Rightarrow> 'a state \<Rightarrow> bool" where
  "invariant l s \<longleftrightarrow>
     (head_of l s = None \<longleftrightarrow> tail_of l s = None) \<and>
     (tail_of l s = None \<longleftrightarrow> sz_of l s = 0) \<and>
     (sz_of l s \<noteq> 0 \<longrightarrow>
        get_next (tail_of l s) s = Inr (head_of l s) \<and>
        walk (sz_of l s) (head_of l s) s = Inr (head_of l s))"

text \<open>
  The states a program can be in between two calls, when it builds its rings with the
  public operations only: it starts with empty rings, and every call that returns, or
  throws \<^verbatim>\<open>std::bad_alloc\<close>, leads to the next state. \<^verbatim>\<open>front\<close> hands out a reference
  through which the caller may overwrite the element. Nothing is asked of the arguments:
  a call may name the same ring twice, as in \<^verbatim>\<open>a.mergeWith(a)\<close> or
  \<^verbatim>\<open>r.splitIntoTwo(a, a)\<close>.
\<close>

inductive reachable :: "'a state \<Rightarrow> bool" where
  start: "reachable (init_state free)" if "distinct free"
| append_returns: "reachable s'" if "reachable s" "append_op l v s = Inr s'"
| append_throws: "reachable s'" if "reachable s" "append_op l v s = Inl (BadAlloc s')"
| pop_front_returns: "reachable s'" if "reachable s" "pop_front l s = Inr (b, s')"
| rotate_returns: "reachable s'" if "reachable s" "rotate_op l s = Inr s'"
| clear_returns: "reachable s'" if "reachable s" "clear l s = Inr s'"
| front_write: "reachable s'" if "reachable s" "front l s = Inr r" "write_ref r v s = Inr s'"
| split_returns: "reachable s'"
    if "reachable s" "splitIntoTwo this first second s = Some (Inr s')"
| merge_returns: "reachable s'" if "reachable s" "mergeWith this other s = Inr s'"

text \<open>
  Well-formed states: every ring owns a list of nodes of which it is the ring, no node
  belongs to two rings, and the free list is sound.
\<close>

definition wf_state :: "'a state \<Rightarrow> bool" where
  "wf_state s \<longleftrightarrow>
     heap_ok s \<and>
     (\<exists>own. (\<forall>l. ring s l (own l)) \<and> (\<forall>l l'. l \<noteq> l' \<longrightarrow> set (own l) \<inter> set (own l') = {}))"

text \<open>
  \<open>owned s own\<close> names the nodes of every ring. \<open>merge_self_post\<close> and
  \<open>split_alias_post\<close> are the states left by \<^verbatim>\<open>a.mergeWith(a)\<close> on a non-empty ring and by
  \<^verbatim>\<open>r.splitIntoTwo(a, a)\<close>.
\<close>

definition owned :: "'a state \<Rightarrow> (lid \<Rightarrow> addr list) \<Rightarrow> bool" where
  "owned s own \<longleftrightarrow>
     heap_ok s \<and> (\<forall>l. ring s l (own l)) \<and>
     (\<forall>l l'. l \<noteq> l' \<longrightarrow> set (own l) \<inter> set (own l') = {})"

definition split_alias_post :: "lid \<Rightarrow> lid \<Rightarrow> addr list \<Rightarrow> 'a state \<Rightarrow> 'a state" where
  "split_alias_post this first as s =
     (if length as = 1 then
        s\<lparr>heap := (heap s)(hd as \<mapsto> (the (heap s (hd as)))\<lparr>nxt := Some (hd as)\<rparr>),
          lists := (lists s)(first := \<lparr>head = Some (hd as), tail = Some (hd as), sz = 1\<rparr>,
                             this := \<lparr>head = None, tail = None, sz = 0\<rparr>)\<rparr>
      else split_post this first first as s)"

definition merge_self_post :: "lid \<Rightarrow> 'a state \<Rightarrow> 'a state" where
  "merge_self_post l s = s\<lparr>lists := (lists s)(l := \<lparr>head = None, tail = None, sz = 0\<rparr>)\<rparr>"

section \<open>Example states\<close>

text \<open>
  A ring of the elements 1, 2, 3 in the nodes 10, 11, 12, with three free addresses, and
  the same ring when memory is exhausted.
\<close>

definition demo3 :: "int state" where
  "demo3 =
     \<lparr>heap = [10 \<mapsto> \<lparr>data = 1, nxt = Some 11\<rparr>, 11 \<mapsto> \<lparr>data = 2, nxt = Some 12\<rparr>,
              12 \<mapsto> \<lparr>data = 3, nxt = Some 10\<rparr>],
       avail = [13, 14, 15],
       lists = (\<lambda>l. \<lparr>head = None, tail = None, sz = 0\<rparr>)
                 (0 := \<lparr>head = Some 10, tail = Some 12, sz = 3\<rparr>)\<rparr>"

definition demo3_full :: "int state" where
  "demo3_full = demo3\<lparr>avail := []\<rparr>"

text \<open>
  A ring of the elements 1 to 5 in the nodes 10 to 14, a second ring of one element 7,
  and a third, empty ring.
\<close>

definition demo5 :: "int state" where
  "demo5 =
     \<lparr>heap = [10 \<mapsto> \<lparr>data = 1, nxt = Some 11\<rparr>, 11 \<mapsto> \<lparr>data = 2, nxt = Some 12\<rparr>,
              12 \<mapsto> \<lparr>data = 3, nxt = Some 13\<rparr>, 13 \<mapsto> \<lparr>data = 4, nxt = Some 14\<rparr>,
              14 \<mapsto> \<lparr>data = 5, nxt = Some 10\<rparr>, 20 \<mapsto> \<lparr>data = 7, nxt = Some 20\<rparr>],
       avail = [15],
       lists = (\<lambda>l. \<lparr>head = None, tail = None, sz = 0\<rparr>)
                 (0 := \<lparr>head = Some 10, tail = Some 14, sz = 5\<rparr>,
                  1 := \<lparr>head = Some 20, tail = Some 20, sz = 1\<rparr>)\<rparr>"

text \<open>Two robots, with the ids 1 and 2, in a ring.\<close>

definition demo_robots :: "Robot state" where
  "demo_robots =
     \<lparr>heap = [30 \<mapsto> \<lparr>data = \<lparr>robot_id = 1, name = ''R2'', battery = 3, drain = 1, paused = False\<rparr>,
                     nxt = Some 31\<rparr>,
              31 \<mapsto> \<lparr>data = \<lparr>robot_id = 2, name = ''D2'', battery = 5, drain = 1, paused = True\<rparr>,
                     nxt = Some 30\<rparr>],
       avail = [32],
       lists = (\<lambda>l. \<lparr>head = None, tail = None, sz = 0\<rparr>)
                 (0 := \<lparr>head = Some 30, tail = Some 31, sz = 2\<rparr>)\<rparr>"

section \<open>Lemmas\<close>

lemmas field_defs = head_of_def tail_of_def sz_of_def set_head_def set_tail_def set_sz_def

lemma state_upd_order:
  "heap_update f (avail_update g s) = avail_update g (heap_update f s)"
  "heap_update f (lists_update k s) = lists_update k (heap_update f s)"
  "avail_update g (lists_update k s) = lists_update k (avail_update g s)"
  by simp_all

lemma first_ptr_simps [simp]:
  "first_ptr [] = None"
  "first_ptr (a # as) = Some a"
  by (simp_all add: first_ptr_def)

lemma last_ptr_simps [simp]:
  "last_ptr [] = None"
  "last_ptr [a] = Some a"
  "last_ptr (as @ [t]) = Some t"
  by (simp_all add: last_ptr_def)

lemma first_ptr_append: "first_ptr (as @ bs) = (if as = [] then first_ptr bs else first_ptr as)"
  by (cases as) simp_all

lemma last_ptr_append: "last_ptr (as @ bs) = (if bs = [] then last_ptr as else last_ptr bs)"
  by (simp add: last_ptr_def)

lemma last_ptr_Cons: "last_ptr (a # as) = (if as = [] then Some a else last_ptr as)"
  by (simp add: last_ptr_def)

lemma first_ptr_hd: "as \<noteq> [] \<Longrightarrow> first_ptr as = Some (hd as)"
  by (cases as) simp_all

lemma last_ptr_last: "as \<noteq> [] \<Longrightarrow> last_ptr as = Some (last as)"
  by (simp add: last_ptr_def)

lemma ringI:
  "head_of l s = first_ptr as \<Longrightarrow> tail_of l s = last_ptr as \<Longrightarrow> sz_of l s = length as \<Longrightarrow>
   distinct as \<Longrightarrow> path (heap s) (first_ptr as) as (first_ptr as) \<Longrightarrow> ring s l as"
  by (simp add: ring_def)

lemma ring_distinct: "ring s l as \<Longrightarrow> distinct as"
  by (simp add: ring_def)

lemma ring_path: "ring s l as \<Longrightarrow> path (heap s) (first_ptr as) as (first_ptr as)"
  by (simp add: ring_def)

lemma path_append: "path h p (as @ bs) q = (\<exists>r. path h p as r \<and> path h r bs q)"
  by (induction as arbitrary: p) (auto split: option.splits)

lemma path_upd_other: "a \<notin> set as \<Longrightarrow> path (h(a := x)) p as q = path h p as q"
  by (induction as arbitrary: p) (auto split: option.splits)

lemma path_live: "path h p as q \<Longrightarrow> a \<in> set as \<Longrightarrow> h a \<noteq> None"
  by (induction as arbitrary: p) (auto split: option.splits)

lemma path_first: "path h p as q \<Longrightarrow> as \<noteq> [] \<Longrightarrow> p = Some (hd as)"
  by (cases as) auto

lemma path_nth:
  "path h p as q \<Longrightarrow> i < length as \<Longrightarrow>
     \<exists>nd. h (as ! i) = Some nd \<and> nxt nd = (if Suc i < length as then Some (as ! Suc i) else q)"
proof (induction as arbitrary: p i)
  case Nil
  then show ?case by simp
next
  case (Cons a as)
  from Cons.prems(1) obtain nd where nd: "h a = Some nd" "path h (nxt nd) as q"
    by (auto split: option.splits)
  show ?case
  proof (cases i)
    case 0
    with nd show ?thesis by (cases as) auto
  next
    case (Suc j)
    with Cons.prems(2) have "j < length as" by simp
    from Cons.IH [OF nd(2) this] Suc show ?thesis by (auto split: if_splits)
  qed
qed

lemma path_snoc:
  "path h p (as @ [t]) q = (path h p as (Some t) \<and> (\<exists>nd. h t = Some nd \<and> nxt nd = q))"
  by (auto simp: path_append split: option.splits)

lemma path_data_upd:
  "h a = Some nd \<Longrightarrow> path (h(a \<mapsto> nd\<lparr>data := v\<rparr>)) p as q = path h p as q"
  by (induction as arbitrary: p) (auto split: option.splits)

lemma path_relink_last:
  assumes "path h p (as @ [t]) q" "t \<notin> set as" "h t = Some nd"
  shows "path (h(t \<mapsto> nd\<lparr>nxt := r\<rparr>)) p (as @ [t]) r"
  using assms by (simp add: path_snoc path_upd_other)

lemma walk_path: "path (heap s) p as q \<Longrightarrow> walk (length as) p s = Inr q"
  by (induction as arbitrary: p) (auto simp: get_next_def split: option.splits)

lemma forEach_loop_path:
  "path (heap s) p as q \<Longrightarrow>
     forEach_loop (length as) p f acc s = Inr (fold f (elems s as) acc)"
  by (induction as arbitrary: p acc)
     (auto simp: get_next_def get_data_def elems_def split: option.splits)

lemma fold_snoc: "fold (\<lambda>x acc. acc @ [x]) xs ys = ys @ xs"
  by (induction xs arbitrary: ys) auto

lemma ring_Nil: "ring s l [] \<longleftrightarrow> head_of l s = None \<and> tail_of l s = None \<and> sz_of l s = 0"
  by (auto simp: ring_def)

lemma ring_lists:
  "ring s l as \<Longrightarrow> lists s l = \<lparr>head = first_ptr as, tail = last_ptr as, sz = length as\<rparr>"
  by (cases "lists s l") (simp add: ring_def field_defs)

lemma ring_empty_iff: "ring s l as \<Longrightarrow> head_of l s = None \<longleftrightarrow> as = []"
  by (cases as) (auto simp: ring_def)

lemma ring_forEach:
  "ring s l as \<Longrightarrow> forEach l f acc s = Inr (fold f (elems s as) acc)"
proof (cases as)
  case Nil
  assume "ring s l as"
  with Nil show ?thesis by (simp add: ring_Nil forEach_def elems_def)
next
  case (Cons a rest)
  assume r: "ring s l as"
  then have "forEach_loop (length as) (first_ptr as) f acc s = Inr (fold f (elems s as) acc)"
    by (rule forEach_loop_path [OF ring_path])
  moreover from r Cons have "head_of l s = first_ptr as" "first_ptr as \<noteq> None" "sz_of l s = length as"
    by (auto simp: ring_def)
  ultimately show ?thesis by (auto simp: forEach_def)
qed

lemma ring_to_list: "ring s l as \<Longrightarrow> to_list l s = Inr (elems s as)"
  by (simp add: to_list_def ring_forEach fold_snoc)

lemma ring_last_next:
  "ring s l as \<Longrightarrow> as \<noteq> [] \<Longrightarrow> get_next (tail_of l s) s = Inr (head_of l s)"
proof -
  assume r: "ring s l as" and ne: "as \<noteq> []"
  then obtain bs t where as: "as = bs @ [t]" by (metis rev_exhaust)
  from r have "path (heap s) (first_ptr as) as (first_ptr as)" by (simp add: ring_def)
  with as obtain nd where "heap s t = Some nd" "nxt nd = first_ptr as"
    by (auto simp: path_snoc)
  moreover from r as have "tail_of l s = Some t" "head_of l s = first_ptr as"
    by (auto simp: ring_def)
  ultimately show ?thesis by (simp add: get_next_def)
qed

lemma checkInvariant_ring: "ring s l as \<Longrightarrow> checkInvariant l s = Inr ()"
proof (cases as)
  case Nil
  assume "ring s l as"
  with Nil show ?thesis by (simp add: ring_Nil checkInvariant_def)
next
  case (Cons a rest)
  assume r: "ring s l as"
  with Cons have h: "head_of l s = Some a" "tail_of l s = Some (last as)" "sz_of l s = length as"
    by (auto simp: ring_def last_ptr_last)
  from r Cons have n: "get_next (tail_of l s) s = Inr (head_of l s)"
    by (intro ring_last_next) auto
  from r have "walk (length as) (first_ptr as) s = Inr (first_ptr as)"
    by (rule walk_path [OF ring_path])
  with Cons have w: "walk (sz_of l s) (head_of l s) s = Inr (head_of l s)"
    using h by simp
  show ?thesis using h n w by (simp add: checkInvariant_def)
qed

lemma checked_ring: "ring s l as \<Longrightarrow> checked l r s = Inr r"
  by (simp add: checked_def checkInvariant_ring)

lemma ring_frame:
  assumes "ring s l as" "lists s' l = lists s l" "\<forall>a \<in> set as. heap s' a = heap s a"
  shows "ring s' l as"
proof -
  have "path (heap s') p bs q = path (heap s) p bs q" if "set bs \<subseteq> set as" for p bs q
    using that assms(3) by (induction bs arbitrary: p) (auto split: option.splits)
  with assms(1,2) show ?thesis by (simp add: ring_def field_defs)
qed

lemma elems_frame: "\<forall>a \<in> set as. heap s' a = heap s a \<Longrightarrow> elems s' as = elems s as"
  by (simp add: elems_def)

lemma ring_live: "ring s l as \<Longrightarrow> a \<in> set as \<Longrightarrow> heap s a \<noteq> None"
  using path_live ring_path by fastforce

lemma ring_fresh: "ring s l as \<Longrightarrow> heap s a = None \<Longrightarrow> a \<notin> set as"
  using ring_live by fastforce

lemma append_fail: "avail s = [] \<Longrightarrow> append_op l v s = Inl (BadAlloc s)"
  by (simp add: append_op_def new_Node_def)

lemma append_post_ring:
  assumes r: "ring s l as" and av: "avail s = a # rest" and fr: "heap s a = None"
  shows "ring (append_post l v as s) l (as @ [a])"
proof (rule ringI)
  let ?h0 = "hd (as @ [a])"
  let ?s' = "append_post l v as s"
  from fr r have a: "a \<notin> set as" by (rule ring_fresh [rotated])
  have f: "first_ptr (as @ [a]) = Some ?h0" by (simp add: first_ptr_hd)
  show "head_of l ?s' = first_ptr (as @ [a])"
    using av f by (simp add: append_post_def field_defs Let_def)
  show "tail_of l ?s' = last_ptr (as @ [a])"
    using av by (simp add: append_post_def field_defs Let_def)
  show "sz_of l ?s' = length (as @ [a])"
    by (simp add: append_post_def field_defs Let_def)
  show "distinct (as @ [a])"
    using a ring_distinct [OF r] by simp
  show "path (heap ?s') (first_ptr (as @ [a])) (as @ [a]) (first_ptr (as @ [a]))"
  proof (cases as rule: rev_cases)
    case Nil
    then show ?thesis using av by (simp add: append_post_def Let_def)
  next
    case (snoc bs t)
    then have f0: "first_ptr as = Some ?h0" by (cases bs) simp_all
    from ring_path [OF r] f0 snoc obtain nd where
      p: "path (heap s) (Some ?h0) bs (Some t)" and nd: "heap s t = Some nd"
      by (auto simp: path_snoc)
    let ?h1 = "(heap s)(a \<mapsto> \<lparr>data = v, nxt = Some ?h0\<rparr>)"
    let ?h2 = "?h1(t \<mapsto> nd\<lparr>nxt := Some a\<rparr>)"
    from a ring_distinct [OF r] snoc have n: "a \<notin> set bs" "t \<notin> set bs" "a \<noteq> t" by auto
    with p have "path ?h2 (Some ?h0) bs (Some t)" by (simp add: path_upd_other)
    then have "path ?h2 (Some ?h0) (bs @ [t]) (Some a)"
      by (simp add: path_snoc)
    then have "path ?h2 (Some ?h0) ((bs @ [t]) @ [a]) (Some ?h0)"
      using n by (subst path_snoc) simp
    moreover have "heap ?s' = ?h2"
      using snoc av nd by (simp add: append_post_def Let_def)
    ultimately show ?thesis using snoc f by simp
  qed
qed

lemma append_op_ring:
  assumes r: "ring s l as" and av: "avail s = a # rest" and fr: "heap s a = None"
  shows "append_op l v s = Inr (append_post l v as s)"
proof (cases as rule: rev_cases)
  case Nil
  with r have "lists s l = \<lparr>head = None, tail = None, sz = 0\<rparr>"
    by (simp add: ring_Nil field_defs)
  then show ?thesis using av Nil
    by (simp add: append_op_def new_Node_def make_single_def set_next_def append_post_def
        field_defs)
next
  case (snoc bs t)
  let ?s5 = "append_post l v as s"
  from fr r have a: "a \<notin> set as" by (rule ring_fresh [rotated])
  from snoc have f: "first_ptr as = Some (hd (as @ [a]))" by (cases bs; simp)
  from ring_lists [OF r] f snoc
  have L: "lists s l = \<lparr>head = Some (hd (as @ [a])), tail = Some t, sz = length as\<rparr>"
    by simp
  from ring_live [OF r, of t] snoc obtain nd where nd: "heap s t = Some nd" by auto
  from a snoc have "a \<noteq> t" by auto
  have "checked l ?s5 ?s5 = Inr ?s5"
    by (rule checked_ring [OF append_post_ring [OF r av fr]])
  moreover have "append_op l v s = checked l ?s5 ?s5"
    using av L nd snoc \<open>a \<noteq> t\<close>
    by (simp add: append_op_def new_Node_def set_next_def append_post_def field_defs Let_def
        fun_upd_twist state_upd_order)
  ultimately show ?thesis by simp
qed

lemma avail_fresh: "heap_ok s \<Longrightarrow> ring s l as \<Longrightarrow> b \<in> set (avail s) \<Longrightarrow> b \<notin> set as"
  by (rule ring_fresh) (auto simp: heap_ok_def)

lemma append_post_frame:
  "l' \<noteq> l \<Longrightarrow> lists (append_post l v as s) l' = lists s l'"
  "x \<noteq> hd (avail s) \<Longrightarrow> x \<notin> set as \<Longrightarrow> heap (append_post l v as s) x = heap s x"
  "avail (append_post l v as s) = tl (avail s)"
  by (auto simp: append_post_def Let_def)

lemma append_post_heap_ok:
  assumes "heap_ok s" "ring s l as" "avail s \<noteq> []"
  shows "heap_ok (append_post l v as s)"
proof -
  from assms(3) obtain a rest where av: "avail s = a # rest" by (cases "avail s") auto
  have "b \<notin> set as" if "b \<in> set (avail s)" for b
    using avail_fresh [OF assms(1,2) that] .
  moreover have "last as \<in> set as" if "as \<noteq> []" using that by simp
  ultimately have "last as \<notin> set (avail s)" if "as \<noteq> []" using that by blast
  then show ?thesis using assms(1) av
    by (auto simp: heap_ok_def append_post_def Let_def)
qed

lemma append_post_elems:
  assumes "hd (avail s) \<notin> set as"
  shows "elems (append_post l v as s) (as @ [hd (avail s)]) = elems s as @ [v]"
proof -
  let ?s' = "append_post l v as s"
  have ne: "last as \<noteq> hd (avail s)" if "as \<noteq> []"
    using that assms last_in_set by metis
  have A: "data (the (heap ?s' x)) = data (the (heap s x))" if "x \<in> set as" for x
  proof -
    from that assms have "x \<noteq> hd (avail s)" "as \<noteq> []" by auto
    then show ?thesis
      by (cases "x = last as") (simp_all add: append_post_def Let_def)
  qed
  have B: "data (the (heap ?s' (hd (avail s)))) = v"
    using ne by (cases "as = []") (simp_all add: append_post_def Let_def)
  have "map (\<lambda>a. data (the (heap ?s' a))) as = map (\<lambda>a. data (the (heap s a))) as"
    by (rule map_cong) (simp_all add: A)
  with B show ?thesis unfolding elems_def by simp
qed

lemma pop_post_ring:
  assumes r: "ring s l (a # rest)"
  shows "ring (pop_post l (a # rest) s) l rest"
proof (rule ringI)
  let ?s' = "pop_post l (a # rest) s"
  show "head_of l ?s' = first_ptr rest" "tail_of l ?s' = last_ptr rest" "sz_of l ?s' = length rest"
    by (simp_all add: pop_post_def field_defs Let_def)
  from ring_distinct [OF r] show "distinct rest" by simp
  show "path (heap ?s') (first_ptr rest) rest (first_ptr rest)"
  proof (cases rest rule: rev_cases)
    case Nil
    then show ?thesis by simp
  next
    case (snoc bs t)
    from ring_distinct [OF r] have d: "distinct (a # rest)" .
    from ring_path [OF r] obtain na where na: "heap s a = Some na"
      and p: "path (heap s) (nxt na) rest (Some a)"
      by (auto split: option.splits)
    from p snoc have "nxt na = Some (hd rest)" using path_first by fastforce
    moreover from snoc have f: "first_ptr rest = Some (hd rest)" by (simp add: first_ptr_hd)
    ultimately obtain nd where
      pb: "path (heap s) (first_ptr rest) bs (Some t)" and nd: "heap s t = Some nd"
      using p snoc by (auto simp: path_snoc)
    let ?h1 = "(heap s)(t \<mapsto> nd\<lparr>nxt := first_ptr rest\<rparr>)"
    let ?h2 = "?h1(a := None)"
    from d snoc have n: "t \<notin> set bs" "a \<notin> set bs" "a \<noteq> t" by auto
    with pb have "path ?h2 (first_ptr rest) bs (Some t)" by (simp add: path_upd_other)
    then have "path ?h2 (first_ptr rest) (bs @ [t]) (first_ptr rest)"
      using n by (subst path_snoc) simp
    moreover have "heap ?s' = ?h2"
      using snoc nd by (simp add: pop_post_def Let_def)
    ultimately show ?thesis using snoc by simp
  qed
qed

lemma pop_front_empty: "ring s l [] \<Longrightarrow> pop_front l s = Inr (False, s)"
  by (simp add: ring_Nil pop_front_def)

lemma pop_front_ring:
  assumes r: "ring s l (a # rest)"
  shows "pop_front l s = Inr (True, pop_post l (a # rest) s)"
proof -
  let ?s' = "pop_post l (a # rest) s"
  have c: "checked l (True, ?s') ?s' = Inr (True, ?s')"
    by (rule checked_ring [OF pop_post_ring [OF r]])
  from ring_live [OF r, of a] obtain na where na: "heap s a = Some na" by auto
  show ?thesis
  proof (cases rest rule: rev_cases)
    case Nil
    with ring_lists [OF r] have L: "lists s l = \<lparr>head = Some a, tail = Some a, sz = 1\<rparr>"
      by simp
    have "pop_front l s = checked l (True, ?s') ?s'"
      using L na Nil
      by (simp add: pop_front_def delete_def pop_post_def field_defs Let_def state_upd_order)
    with c show ?thesis by simp
  next
    case (snoc bs t)
    from ring_distinct [OF r] snoc have n: "a \<noteq> t" by auto
    from snoc have tl: "last_ptr (a # rest) = Some t" "last (a # rest) = t" "rest \<noteq> []"
      "last_ptr rest = Some t"
      by (simp_all add: last_ptr_Cons)
    with ring_lists [OF r]
    have L: "lists s l = \<lparr>head = Some a, tail = Some t, sz = Suc (length rest)\<rparr>"
      by simp
    from ring_live [OF r, of t] snoc obtain nd where nd: "heap s t = Some nd" by auto
    from ring_path [OF r] na have p: "path (heap s) (nxt na) rest (Some a)" by simp
    with snoc have "nxt na = Some (hd rest)" using path_first by fastforce
    with tl have hn: "nxt na = first_ptr rest" by (simp add: first_ptr_hd)
    obtain x where x: "first_ptr rest = Some x" using tl by (auto simp: first_ptr_hd)
    have "pop_front l s = checked l (True, ?s') ?s'"
      using L na nd n hn tl(2,3,4) x
      by (simp add: pop_front_def delete_def get_next_def set_next_def pop_post_def field_defs
          Let_def state_upd_order)
    with c show ?thesis by simp
  qed
qed

lemma pop_post_frame:
  "l' \<noteq> l \<Longrightarrow> lists (pop_post l as s) l' = lists s l'"
  "avail (pop_post l as s) = hd as # avail s"
  "heap (pop_post l as s) (hd as) = None"
  by (simp_all add: pop_post_def Let_def)

lemma pop_post_heap_frame:
  assumes "x \<notin> set (a # rest)"
  shows "heap (pop_post l (a # rest) s) x = heap s x"
proof -
  from assms have "x \<noteq> a" "x \<noteq> last (a # rest)" using last_in_set [of "a # rest"] by auto
  then show ?thesis by (cases "rest = []") (simp_all add: pop_post_def Let_def)
qed

lemma pop_post_elems:
  assumes "distinct (a # rest)"
  shows "elems (pop_post l (a # rest) s) rest = elems s rest"
proof -
  have "data (the (heap (pop_post l (a # rest) s) x)) = data (the (heap s x))"
    if "x \<in> set rest" for x
    using that assms by (auto simp: pop_post_def Let_def)
  then show ?thesis by (simp add: elems_def)
qed

lemma pop_post_heap_ok:
  assumes "heap_ok s" "ring s l (a # rest)"
  shows "heap_ok (pop_post l (a # rest) s)"
proof -
  have n: "b \<notin> set (a # rest)" if "b \<in> set (avail s)" for b
    using avail_fresh [OF assms that] .
  then have "a \<notin> set (avail s)" by auto
  moreover have "last (a # rest) \<notin> set (avail s)" using n [of "last (a # rest)"]
    using last_in_set [of "a # rest"] by blast
  ultimately show ?thesis using assms(1)
    by (auto simp: heap_ok_def pop_post_def Let_def)
qed

lemma rotate_post_ring:
  assumes r: "ring s l as"
  shows "ring (rotate_post l as s) l (rotate1 as)"
proof (rule ringI)
  let ?s' = "rotate_post l as s"
  show "head_of l ?s' = first_ptr (rotate1 as)" "tail_of l ?s' = last_ptr (rotate1 as)"
    "sz_of l ?s' = length (rotate1 as)"
    by (simp_all add: rotate_post_def field_defs)
  from ring_distinct [OF r] show "distinct (rotate1 as)" by simp
  have "path (heap s) (first_ptr (rotate1 as)) (rotate1 as) (first_ptr (rotate1 as))"
  proof (cases as)
    case Nil
    then show ?thesis by simp
  next
    case (Cons a rest)
    from ring_path [OF r] Cons obtain na where na: "heap s a = Some na"
      and p: "path (heap s) (nxt na) rest (Some a)"
      by (auto split: option.splits)
    show ?thesis
    proof (cases rest)
      case Nil
      with p na Cons show ?thesis by simp
    next
      case (Cons b cs)
      with p have "nxt na = first_ptr rest" by simp
      moreover have "path (heap s) (nxt na) (rest @ [a]) (nxt na)"
        using p na by (simp add: path_snoc)
      moreover have "first_ptr (rest @ [a]) = first_ptr rest"
        using Cons by simp
      ultimately show ?thesis using \<open>as = a # rest\<close> by simp
    qed
  qed
  then show "path (heap ?s') (first_ptr (rotate1 as)) (rotate1 as) (first_ptr (rotate1 as))"
    by (simp add: rotate_post_def)
qed

lemma rotate_op_ring:
  assumes r: "ring s l as"
  shows "rotate_op l s = Inr (rotate_post l as s)"
proof -
  let ?s' = "rotate_post l as s"
  have c: "checked l ?s' ?s' = Inr ?s'"
    by (rule checked_ring [OF rotate_post_ring [OF r]])
  note L = ring_lists [OF r]
  consider "as = []" | a where "as = [a]" | a bs t where "as = a # bs @ [t]"
    by (cases as; cases "tl as" rule: rev_cases; auto)
  then show ?thesis
  proof cases
    case 1
    with L have "(lists s)(l := \<lparr>head = None, tail = None, sz = 0\<rparr>) = lists s" by auto
    with 1 L show ?thesis by (simp add: rotate_op_def rotate_post_def field_defs)
  next
    case 2
    with L have "(lists s)(l := \<lparr>head = Some a, tail = Some a, sz = Suc 0\<rparr>) = lists s" by auto
    with 2 L show ?thesis by (simp add: rotate_op_def rotate_post_def field_defs)
  next
    case 3
    from ring_distinct [OF r] 3 have ne: "a \<noteq> t" by auto
    from 3 have F: "first_ptr as = Some a" "last_ptr as = Some t"
      "last_ptr (rotate1 as) = Some a"
      by (simp_all add: last_ptr_Cons last_ptr_append)
    obtain b where b: "first_ptr (rotate1 as) = Some b" using 3 by (cases bs) simp_all
    from ring_path [OF r] 3 obtain na where na: "heap s a = Some na"
      and p: "path (heap s) (nxt na) (bs @ [t]) (Some a)"
      by (auto split: option.splits)
    from p have "nxt na = Some (hd (bs @ [t]))" using path_first by fastforce
    with b 3 have hn: "nxt na = Some b" by (cases bs) simp_all
    from p obtain nt where nt: "heap s t = Some nt" "nxt nt = Some a"
      by (auto simp: path_snoc)
    from L F have L': "lists s l = \<lparr>head = Some a, tail = Some t, sz = length as\<rparr>" by simp
    have "rotate_op l s = checked l ?s' ?s'"
      using L' na hn nt ne F(3) b
      by (simp add: rotate_op_def rotate_post_def field_defs Let_def get_next_def)
    with c show ?thesis by simp
  qed
qed

lemma clear_loop_path:
  "path (heap s) p as q \<Longrightarrow> distinct as \<Longrightarrow> clear_loop (length as) p s = Inr (released as s)"
proof (induction as arbitrary: p s)
  case Nil
  then show ?case by (simp add: released_def)
next
  case (Cons a rest)
  from Cons.prems obtain nd where p: "p = Some a" and nd: "heap s a = Some nd"
    and pr: "path (heap s) (nxt nd) rest q"
    by (auto split: option.splits)
  let ?s1 = "s\<lparr>heap := (heap s)(a := None), avail := a # avail s\<rparr>"
  from Cons.prems(2) have a: "a \<notin> set rest" and d: "distinct rest" by auto
  from pr a have "path (heap ?s1) (nxt nd) rest q" by (simp add: path_upd_other)
  from Cons.IH [OF this d] have "clear_loop (length rest) (nxt nd) ?s1 = Inr (released rest ?s1)" .
  moreover have "released rest ?s1 = released (a # rest) s"
    by (auto simp: released_def fun_eq_iff)
  ultimately show ?case using p nd by (simp add: get_next_def delete_def)
qed

lemma clear_ring:
  assumes r: "ring s l as"
  shows "clear l s = Inr (clear_post l as s)"
proof (cases as)
  case Nil
  with ring_lists [OF r] have "(lists s)(l := \<lparr>head = None, tail = None, sz = 0\<rparr>) = lists s"
    by auto
  with Nil r show ?thesis by (simp add: clear_def ring_Nil clear_post_def released_def)
next
  case (Cons a rest)
  with ring_lists [OF r]
  have L: "lists s l = \<lparr>head = Some a, tail = last_ptr as, sz = length as\<rparr>"
    by simp
  have "clear_loop (length as) (first_ptr as) s = Inr (released as s)"
    by (rule clear_loop_path [OF ring_path [OF r] ring_distinct [OF r]])
  with L Cons have "clear_loop (length as) (Some a) s = Inr (released as s)" by simp
  with L show ?thesis
    by (simp add: clear_def clear_post_def released_def field_defs state_upd_order)
qed

lemma clear_post_ring: "ring (clear_post l as s) l []"
  by (simp add: ring_Nil clear_post_def released_def field_defs)

lemma clear_post_frame:
  "l' \<noteq> l \<Longrightarrow> lists (clear_post l as s) l' = lists s l'"
  "x \<notin> set as \<Longrightarrow> heap (clear_post l as s) x = heap s x"
  "x \<in> set as \<Longrightarrow> heap (clear_post l as s) x = None"
  "avail (clear_post l as s) = rev as @ avail s"
  by (simp_all add: clear_post_def released_def)

lemma clear_post_other:
  assumes "ring s l' bs" "l' \<noteq> l" "set as \<inter> set bs = {}"
  shows "ring (clear_post l as s) l' bs"
proof (rule ring_frame [OF assms(1)])
  show "lists (clear_post l as s) l' = lists s l'"
    using assms(2) by (simp add: clear_post_frame)
  show "\<forall>a\<in>set bs. heap (clear_post l as s) a = heap s a"
  proof
    fix a assume "a \<in> set bs"
    with assms(3) have "a \<notin> set as" by auto
    then show "heap (clear_post l as s) a = heap s a" by (simp add: clear_post_frame)
  qed
qed

lemma clear_post_heap_ok:
  assumes "heap_ok s" "ring s l as"
  shows "heap_ok (clear_post l as s)"
proof -
  have "set as \<inter> set (avail s) = {}"
    using avail_fresh [OF assms] by auto
  then show ?thesis using assms(1) ring_distinct [OF assms(2)]
    by (auto simp: heap_ok_def clear_post_def released_def)
qed

lemma display_loop_path:
  "path (heap s) p as q \<Longrightarrow>
     display_loop i (i + length as) p shw s out =
       Inr (out @ join '' -> '' (map shw (elems s as)))"
proof (induction as arbitrary: p i out)
  case Nil
  then show ?case by (subst display_loop.simps) (simp add: elems_def)
next
  case (Cons a rest)
  from Cons.prems obtain nd where p: "p = Some a" and nd: "heap s a = Some nd"
    and pr: "path (heap s) (nxt nd) rest q"
    by (auto split: option.splits)
  let ?out2 = "if rest = [] then out @ shw (data nd) else out @ shw (data nd) @ '' -> ''"
  have "display_loop (Suc i) (Suc i + length rest) (nxt nd) shw s ?out2 =
      Inr (?out2 @ join '' -> '' (map shw (elems s rest)))"
    by (rule Cons.IH [OF pr])
  moreover have "display_loop i (i + length (a # rest)) p shw s out =
      display_loop (Suc i) (Suc i + length rest) (nxt nd) shw s ?out2"
    using p nd by (subst display_loop.simps) (simp add: get_data_def get_next_def Let_def)
  moreover have "?out2 @ join '' -> '' (map shw (elems s rest)) =
      out @ join '' -> '' (map shw (elems s (a # rest)))"
    using nd by (cases rest) (simp_all add: elems_def)
  ultimately show ?case by simp
qed

lemma display_ring:
  assumes r: "ring s l as"
  shows "display l shw s =
     Inr (if as = [] then ''[] (empty)'' @ newline
          else ''['' @ join '' -> '' (map shw (elems s as)) @ ''] (circular)'' @ newline)"
proof (cases as)
  case Nil
  with r show ?thesis by (simp add: ring_Nil display_def)
next
  case (Cons a rest)
  with ring_lists [OF r]
  have L: "head_of l s = first_ptr as" "first_ptr as = Some a" "sz_of l s = length as"
    by (simp_all add: field_defs)
  have "display_loop 0 (0 + length as) (first_ptr as) shw s ''['' =
      Inr (''['' @ join '' -> '' (map shw (elems s as)))"
    by (rule display_loop_path [OF ring_path [OF r]])
  with L Cons show ?thesis by (simp add: display_def)
qed

lemma front_ring:
  assumes r: "ring s l (a # rest)"
  shows "front l s = Inr a" "read_ref a s = Inr (hd (elems s (a # rest)))"
proof -
  from ring_live [OF r, of a] obtain na where na: "heap s a = Some na" by auto
  from ring_lists [OF r] have "head_of l s = Some a" by (simp add: field_defs)
  with na show "front l s = Inr a" by (simp add: front_def)
  from na show "read_ref a s = Inr (hd (elems s (a # rest)))"
    by (simp add: read_ref_def get_data_def elems_def)
qed

lemma front_empty: "ring s l [] \<Longrightarrow> front l s = Inl NullDeref"
  by (simp add: ring_Nil front_def)

lemma ring_snoc_parts:
  assumes "ring s l (as @ [t])"
  obtains nd where "path (heap s) (first_ptr (as @ [t])) as (Some t)" "heap s t = Some nd"
    "nxt nd = first_ptr (as @ [t])" "t \<notin> set as"
  using ring_path [OF assms] ring_distinct [OF assms] by (auto simp: path_snoc)

lemma merge_post_ring:
  assumes r1: "ring s l as" and r2: "ring s l2 bs" and ne: "l \<noteq> l2"
    and dj: "set as \<inter> set bs = {}"
  shows "ring (merge_post l l2 as bs s) l (as @ bs)" "ring (merge_post l l2 as bs s) l2 []"
proof -
  let ?s' = "merge_post l l2 as bs s"
  show "ring ?s' l2 []"
    using r2 by (cases "bs = []") (simp_all add: merge_post_def ring_Nil field_defs)
  show "ring ?s' l (as @ bs)"
  proof (cases "bs = []")
    case True
    with r1 show ?thesis by (simp add: merge_post_def)
  next
    case bne: False
    show ?thesis
    proof (rule ringI)
      show "head_of l ?s' = first_ptr (as @ bs)" "tail_of l ?s' = last_ptr (as @ bs)"
        "sz_of l ?s' = length (as @ bs)"
        using bne ne by (simp_all add: merge_post_def field_defs)
      show "distinct (as @ bs)"
        using ring_distinct [OF r1] ring_distinct [OF r2] dj by simp
      show "path (heap ?s') (first_ptr (as @ bs)) (as @ bs) (first_ptr (as @ bs))"
      proof (cases "as = []")
        case True
        with bne ring_path [OF r2] show ?thesis by (simp add: merge_post_def)
      next
        case ane: False
        from ane obtain as' ta where as: "as = as' @ [ta]" by (metis rev_exhaust)
        from bne obtain bs' tb where bs: "bs = bs' @ [tb]" by (metis rev_exhaust)
        from r1 as obtain na where pa: "path (heap s) (first_ptr as) as' (Some ta)"
          and na: "heap s ta = Some na" and ta: "ta \<notin> set as'"
          by (auto elim: ring_snoc_parts)
        from r2 bs obtain nb where pb: "path (heap s) (first_ptr bs) bs' (Some tb)"
          and nb: "heap s tb = Some nb" and tb: "tb \<notin> set bs'"
          by (auto elim: ring_snoc_parts)
        from dj as bs have x: "ta \<noteq> tb" "ta \<notin> set bs'" "tb \<notin> set as'" by auto
        let ?h = "(heap s)(ta \<mapsto> na\<lparr>nxt := first_ptr bs\<rparr>, tb \<mapsto> nb\<lparr>nxt := first_ptr as\<rparr>)"
        have H: "heap ?s' = ?h"
          using ane bne as bs na nb by (simp add: merge_post_def)
        from pa ta x have "path ?h (first_ptr as) as' (Some ta)" by (simp add: path_upd_other)
        with x have A: "path ?h (first_ptr as) (as' @ [ta]) (first_ptr bs)"
          by (subst path_snoc) simp
        from pb tb x have "path ?h (first_ptr bs) bs' (Some tb)" by (simp add: path_upd_other)
        then have B: "path ?h (first_ptr bs) (bs' @ [tb]) (first_ptr as)"
          by (subst path_snoc) simp
        from A B as bs have "path ?h (first_ptr as) (as @ bs) (first_ptr as)"
          by (subst path_append) blast
        moreover have "first_ptr (as @ bs) = first_ptr as"
          using ane by (simp add: first_ptr_append)
        ultimately show ?thesis using H by simp
      qed
    qed
  qed
qed

lemma mergeWith_ring:
  assumes r1: "ring s l as" and r2: "ring s l2 bs" and ne: "l \<noteq> l2"
    and dj: "set as \<inter> set bs = {}"
  shows "mergeWith l l2 s = Inr (merge_post l l2 as bs s)"
proof (cases "bs = []")
  case True
  with r2 show ?thesis by (simp add: mergeWith_def empty_op_def merge_post_def ring_Nil)
next
  case bne: False
  let ?s' = "merge_post l l2 as bs s"
  from bne obtain b0 where fb: "first_ptr bs = Some b0" by (auto simp: first_ptr_hd)
  from bne obtain tb where lb: "last_ptr bs = Some tb" "last bs = tb"
    by (auto simp: last_ptr_last)
  from ring_lists [OF r2] fb lb
  have L2: "lists s l2 = \<lparr>head = Some b0, tail = Some tb, sz = length bs\<rparr>" by simp
  show ?thesis
  proof (cases "as = []")
    case True
    with ring_lists [OF r1] have L1: "lists s l = \<lparr>head = None, tail = None, sz = 0\<rparr>"
      by simp
    have F: "first_ptr (as @ bs) = Some b0" "last_ptr (as @ bs) = Some tb"
      using True fb lb by simp_all
    show ?thesis using L1 L2 ne F bne True
      by (simp add: mergeWith_def empty_op_def merge_post_def field_defs Let_def)
  next
    case ane: False
    from ane obtain a0 where fa: "first_ptr as = Some a0" by (auto simp: first_ptr_hd)
    from ane obtain ta where la: "last_ptr as = Some ta" "last as = ta"
      by (auto simp: last_ptr_last)
    from ring_lists [OF r1] fa la
    have L1: "lists s l = \<lparr>head = Some a0, tail = Some ta, sz = length as\<rparr>" by simp
    have F: "first_ptr (as @ bs) = Some a0" "last_ptr (as @ bs) = Some tb"
      using ane bne fa lb by (simp_all add: first_ptr_append last_ptr_append)
    from la ane have "ta \<in> set as" by auto
    moreover from lb bne have "tb \<in> set bs" by auto
    ultimately have x: "ta \<noteq> tb" using dj by auto
    from ring_live [OF r1 \<open>ta \<in> set as\<close>] obtain na where na: "heap s ta = Some na" by auto
    from ring_live [OF r2 \<open>tb \<in> set bs\<close>] obtain nb where nb: "heap s tb = Some nb" by auto
    have c: "checked l ?s' ?s' = Inr ?s'"
      by (rule checked_ring [OF merge_post_ring(1) [OF r1 r2 ne dj]])
    have "mergeWith l l2 s = checked l ?s' ?s'"
      using L1 L2 ne F bne ane fa fb la(2) lb(2) na nb x
      by (simp add: mergeWith_def empty_op_def merge_post_def field_defs Let_def set_next_def
          state_upd_order)
    with c show ?thesis by simp
  qed
qed

lemma merge_post_frame:
  "l' \<noteq> l \<Longrightarrow> l' \<noteq> l2 \<Longrightarrow> lists (merge_post l l2 as bs s) l' = lists s l'"
  "avail (merge_post l l2 as bs s) = avail s"
  by (simp_all add: merge_post_def)

lemma merge_post_heap_frame:
  assumes "x \<notin> set as" "x \<notin> set bs"
  shows "heap (merge_post l l2 as bs s) x = heap s x"
proof -
  have "x \<noteq> last as" if "as \<noteq> []" using that assms(1) last_in_set by metis
  moreover have "x \<noteq> last bs" if "bs \<noteq> []" using that assms(2) last_in_set by metis
  ultimately show ?thesis by (simp add: merge_post_def)
qed

lemma merge_post_data:
  assumes "ring s l as" "ring s l2 bs"
  shows "data (the (heap (merge_post l l2 as bs s) x)) = data (the (heap s x))"
proof -
  consider "bs = [] \<or> as = []" | "as \<noteq> []" "bs \<noteq> []" by blast
  then show ?thesis
  proof cases
    case 1
    then show ?thesis by (auto simp: merge_post_def)
  next
    case 2
    then show ?thesis
      by (cases "x = last bs"; cases "x = last as") (simp_all add: merge_post_def)
  qed
qed

lemma merge_post_elems:
  assumes "ring s l as" "ring s l2 bs"
  shows "elems (merge_post l l2 as bs s) (as @ bs) = elems s as @ elems s bs"
  unfolding elems_def by (simp add: merge_post_data [OF assms])

lemma merge_post_heap_ok:
  assumes "heap_ok s" "ring s l as" "ring s l2 bs"
  shows "heap_ok (merge_post l l2 as bs s)"
proof -
  have "last as \<notin> set (avail s)" if "as \<noteq> []"
    using that avail_fresh [OF assms(1,2)] last_in_set by metis
  moreover have "last bs \<notin> set (avail s)" if "bs \<noteq> []"
    using that avail_fresh [OF assms(1,3)] last_in_set by metis
  ultimately show ?thesis using assms(1)
    by (auto simp: heap_ok_def merge_post_def)
qed

lemma ring_next_nth:
  assumes r: "ring s l as" and i: "i < length as"
  shows "get_next (Some (as ! i)) s = Inr (Some (as ! (Suc i mod length as)))"
proof -
  from i have ne: "as \<noteq> []" by auto
  then have f: "first_ptr as = Some (as ! 0)" by (simp add: first_ptr_hd hd_conv_nth)
  from path_nth [OF ring_path [OF r] i] obtain nd where
    nd: "heap s (as ! i) = Some nd"
      "nxt nd = (if Suc i < length as then Some (as ! Suc i) else first_ptr as)"
    by blast
  show ?thesis
  proof (cases "Suc i < length as")
    case True
    with nd show ?thesis by (simp add: get_next_def)
  next
    case False
    with i have "Suc i = length as" by simp
    with nd f show ?thesis by (simp add: get_next_def)
  qed
qed

lemma ring_nth_eq_head:
  assumes "ring s l as" "j < length as"
  shows "as ! j = as ! 0 \<longleftrightarrow> j = 0"
proof -
  from assms(2) have "0 < length as" by (cases as) auto
  with ring_distinct [OF assms(1)] assms(2) show ?thesis
    using nth_eq_iff_index_eq [of as j 0] by blast
qed

lemma split_loop_ring:
  assumes r: "ring s l as" and n: "2 \<le> length as" and i: "2 * i < length as"
  shows "split_loop (Some (as ! 0)) (Some (as ! i)) (Some (as ! (2 * i))) s =
     Some (Inr (Some (as ! ((length as - 1) div 2)), Some (as ! (2 * ((length as - 1) div 2)))))"
  using i
proof (induction "(length as - 1) div 2 - i" arbitrary: i)
  case 0
  let ?n = "length as"
  from 0 have ik: "i = (?n - 1) div 2" by arith
  have f1: "get_next (Some (as ! (2 * i))) s = Inr (Some (as ! (Suc (2 * i) mod ?n)))"
    by (rule ring_next_nth [OF r "0.prems"])
  show ?case
  proof (cases "Suc (2 * i) = ?n")
    case True
    then have "as ! (Suc (2 * i) mod ?n) = as ! 0" by simp
    with f1 ik show ?thesis by (subst split_loop.simps) simp
  next
    case False
    with "0.prems" have lt: "Suc (2 * i) < ?n" by simp
    with ik have e: "Suc (Suc (2 * i)) = ?n" by arith
    from lt have m: "Suc (2 * i) mod ?n = Suc (2 * i)" by simp
    have nh: "as ! Suc (2 * i) \<noteq> as ! 0"
      using ring_nth_eq_head [OF r lt] by simp
    have "get_next (Some (as ! Suc (2 * i))) s = Inr (Some (as ! (Suc (Suc (2 * i)) mod ?n)))"
      by (rule ring_next_nth [OF r lt])
    with e have f2: "get_next (Some (as ! Suc (2 * i))) s = Inr (Some (as ! 0))" by simp
    from f1 m f2 nh ik show ?thesis by (subst split_loop.simps) simp
  qed
next
  case (Suc d)
  let ?n = "length as"
  from Suc.hyps(2) have ik: "i < (?n - 1) div 2" by arith
  then have lt2: "Suc (Suc (2 * i)) < ?n" by arith
  then have lt1: "Suc (2 * i) < ?n" and lt0: "2 * i < ?n" and lti: "Suc i < ?n" by arith+
  have f1: "get_next (Some (as ! (2 * i))) s = Inr (Some (as ! Suc (2 * i)))"
    using ring_next_nth [OF r lt0] lt1 by simp
  have f2: "get_next (Some (as ! Suc (2 * i))) s = Inr (Some (as ! Suc (Suc (2 * i))))"
    using ring_next_nth [OF r lt1] lt2 by simp
  have f3: "get_next (Some (as ! i)) s = Inr (Some (as ! Suc i))"
    using ring_next_nth [OF r, of i] lti by simp
  have nh: "as ! Suc (2 * i) \<noteq> as ! 0" "as ! Suc (Suc (2 * i)) \<noteq> as ! 0"
    using ring_nth_eq_head [OF r lt1] ring_nth_eq_head [OF r lt2] by simp_all
  have d: "d = (?n - 1) div 2 - Suc i" using Suc.hyps(2) by arith
  have "2 * Suc i < ?n" using lt2 by simp
  from Suc.hyps(1) [OF d this]
  have "split_loop (Some (as ! 0)) (Some (as ! Suc i)) (Some (as ! Suc (Suc (2 * i)))) s =
     Some (Inr (Some (as ! ((?n - 1) div 2)), Some (as ! (2 * ((?n - 1) div 2)))))"
    by simp
  with f1 f2 f3 nh show ?case by (subst split_loop.simps) simp
qed

lemma path_close:
  assumes "path h p xs q" "xs \<noteq> []" "distinct xs" "h (last xs) = Some nd"
  shows "path (h(last xs \<mapsto> nd\<lparr>nxt := p\<rparr>)) p xs p"
proof -
  from assms(2) obtain xs' t where xs: "xs = xs' @ [t]" by (metis rev_exhaust)
  with assms show ?thesis by (simp add: path_snoc path_upd_other)
qed

lemma path_cut:
  assumes p: "path h fa (xs @ ys) fa" and d: "distinct (xs @ ys)" and xne: "xs \<noteq> []"
    and yne: "ys \<noteq> []"
  shows "path h (first_ptr xs) xs (first_ptr ys)" "path h (first_ptr ys) ys (first_ptr xs)"
proof -
  from p obtain r where a: "path h fa xs r" and b: "path h r ys fa"
    by (auto simp: path_append)
  from a xne have "fa = first_ptr xs" by (cases xs) auto
  moreover from b yne have "r = first_ptr ys" by (cases ys) auto
  ultimately show "path h (first_ptr xs) xs (first_ptr ys)"
    "path h (first_ptr ys) ys (first_ptr xs)"
    using a b by simp_all
qed

lemma split_post_heap:
  assumes "as \<noteq> []" "xs = take ((length as + 1) div 2) as" "ys = drop ((length as + 1) div 2) as"
  shows "heap (split_post this first second as s) =
     (if ys = [] then (heap s)(last xs \<mapsto> (the (heap s (last xs)))\<lparr>nxt := first_ptr xs\<rparr>)
      else (heap s)(last xs \<mapsto> (the (heap s (last xs)))\<lparr>nxt := first_ptr xs\<rparr>,
                    last ys \<mapsto> (the (heap s (last ys)))\<lparr>nxt := first_ptr ys\<rparr>))"
  using assms by (simp add: split_post_def Let_def)

lemma split_post_lists:
  assumes "as \<noteq> []" "xs = take ((length as + 1) div 2) as" "ys = drop ((length as + 1) div 2) as"
  shows "lists (split_post this first second as s) =
     (lists s)(first := \<lparr>head = first_ptr xs, tail = last_ptr xs, sz = length xs\<rparr>,
               second := \<lparr>head = first_ptr ys, tail = last_ptr ys, sz = length ys\<rparr>,
               this := \<lparr>head = None, tail = None, sz = 0\<rparr>)"
  using assms by (simp add: split_post_def Let_def)

lemma split_post_ring:
  assumes r: "ring s this as" and r1: "ring s first []" and r2: "ring s second []"
    and ids: "this \<noteq> first" "this \<noteq> second"
  shows "ring (split_post this first second as s) this []"
    "first \<noteq> second \<Longrightarrow>
       ring (split_post this first second as s) first (take ((length as + 1) div 2) as)"
    "ring (split_post this first second as s) second (drop ((length as + 1) div 2) as)"
proof -
  let ?s' = "split_post this first second as s"
  define xs where "xs = take ((length as + 1) div 2) as"
  define ys where "ys = drop ((length as + 1) div 2) as"
  have all: "ring ?s' this [] \<and> (first \<noteq> second \<longrightarrow> ring ?s' first xs) \<and> ring ?s' second ys"
  proof (cases "as = []")
    case True
    with r r1 r2 show ?thesis by (simp add: split_post_def xs_def ys_def)
  next
    case ane: False
    note H = split_post_heap [OF ane xs_def ys_def, of this first second s]
    note L = split_post_lists [OF ane xs_def ys_def, of this first second s]
    have cat: "xs @ ys = as" by (simp add: xs_def ys_def)
    have xne: "xs \<noteq> []" using ane by (cases as) (simp_all add: xs_def)
    from ring_distinct [OF r] cat have d: "distinct (xs @ ys)" by simp
    then have dx: "distinct xs" and dy: "distinct ys" and dj: "set xs \<inter> set ys = {}"
      by simp_all
    have lx: "last xs \<in> set xs" using xne by simp
    then have "last xs \<in> set as" using cat by auto
    from ring_live [OF r this] obtain nx where nx: "heap s (last xs) = Some nx" by auto
    have t: "ring ?s' this []" using ids by (simp add: ring_Nil L field_defs)
    have "(first \<noteq> second \<longrightarrow> ring ?s' first xs) \<and> ring ?s' second ys"
    proof (cases "ys = []")
      case True
      then have xa: "xs = as" using cat by simp
      have "path (heap ?s') (first_ptr xs) xs (first_ptr xs)"
        unfolding H using True nx xa ring_path [OF r] ring_distinct [OF r] ane
        by (simp add: path_close)
      then have "ring ?s' first xs" if "first \<noteq> second"
        using ids dx that by (intro ringI) (simp_all add: L field_defs)
      moreover have "ring ?s' second ys"
        using True ids by (simp add: ring_Nil L field_defs)
      ultimately show ?thesis by blast
    next
      case yne: False
      have ly: "last ys \<in> set ys" using yne by simp
      then have "last ys \<in> set as" using cat by auto
      from ring_live [OF r this] obtain ny where ny: "heap s (last ys) = Some ny" by auto
      from lx ly dj have ne: "last xs \<noteq> last ys" by auto
      from lx ly dj have nxy: "last xs \<notin> set ys" "last ys \<notin> set xs" by auto
      have "path (heap s) (first_ptr as) (xs @ ys) (first_ptr as)"
        using ring_path [OF r] cat by simp
      from path_cut [OF this d xne yne]
      have px: "path (heap s) (first_ptr xs) xs (first_ptr ys)"
        and py: "path (heap s) (first_ptr ys) ys (first_ptr xs)" .
      let ?h1 = "(heap s)(last xs \<mapsto> nx\<lparr>nxt := first_ptr xs\<rparr>)"
      let ?h2 = "?h1(last ys \<mapsto> ny\<lparr>nxt := first_ptr ys\<rparr>)"
      have H2: "heap ?s' = ?h2" unfolding H using yne nx ny by simp
      have "path ?h1 (first_ptr xs) xs (first_ptr xs)"
        by (rule path_close [OF px xne dx nx])
      with nxy have PX: "path ?h2 (first_ptr xs) xs (first_ptr xs)"
        by (simp add: path_upd_other)
      from py nxy have "path ?h1 (first_ptr ys) ys (first_ptr xs)"
        by (simp add: path_upd_other)
      moreover have "?h1 (last ys) = Some ny" using ne ny by simp
      ultimately have PY: "path ?h2 (first_ptr ys) ys (first_ptr ys)"
        by (rule path_close [OF _ yne dy])
      have "ring ?s' first xs" if "first \<noteq> second"
        using ids dx PX that by (intro ringI) (simp_all add: L H2 field_defs)
      moreover have "ring ?s' second ys"
        using ids dy PY by (intro ringI) (simp_all add: L H2 field_defs)
      ultimately show ?thesis by blast
    qed
    with t show ?thesis by simp
  qed
  from all show "ring ?s' this []"
    "first \<noteq> second \<Longrightarrow> ring ?s' first (take ((length as + 1) div 2) as)"
    "ring ?s' second (drop ((length as + 1) div 2) as)"
    by (simp_all add: xs_def ys_def)
qed

lemma split_post_shape:
  "split_post this first second as s =
     s\<lparr>heap := heap (split_post this first second as s),
       lists := lists (split_post this first second as s)\<rparr>"
  by (simp add: split_post_def Let_def)

lemma split_post_avail: "avail (split_post this first second as s) = avail s"
  by (simp add: split_post_def Let_def)

lemma split_finish_ring:
  assumes r: "ring s this as" and r1: "ring s first []" and r2: "ring s second []"
    and ids: "this \<noteq> first" "this \<noteq> second"
    and n: "2 \<le> length as"
  shows "split_finish this first second (Some (as ! ((length as - 1) div 2)))
           (Some (as ! (2 * ((length as - 1) div 2)))) s =
         Inr (split_post this first second as s)"
proof -
  let ?n = "length as"
  let ?s' = "split_post this first second as s"
  define k where "k = (?n - 1) div 2"
  define xs where "xs = take ((?n + 1) div 2) as"
  define ys where "ys = drop ((?n + 1) div 2) as"
  from n have ane: "as \<noteq> []" by auto
  note H = split_post_heap [OF ane xs_def ys_def, of this first second s]
  note L = split_post_lists [OF ane xs_def ys_def, of this first second s]
  from n have n1: "(?n + 1) div 2 = Suc k" unfolding k_def by arith
  from n have k: "Suc k < ?n" unfolding k_def by arith
  have xs': "xs = take (Suc k) as" unfolding xs_def using n1 by simp
  have ys': "ys = drop (Suc k) as" unfolding ys_def using n1 by simp
  have lenx: "length xs = Suc k" using k by (simp add: xs')
  have leny: "length ys = ?n - Suc k" by (simp add: ys')
  have yne: "ys \<noteq> []" using k leny by auto
  have xne: "xs \<noteq> []" using lenx by auto
  have lastx: "last xs = as ! k"
    using lenx k by (simp add: last_conv_nth xne) (simp add: xs')
  have lasty: "last ys = last as" using k by (simp add: ys')
  have fx: "first_ptr xs = Some (as ! 0)"
    using xne lenx by (simp add: first_ptr_hd hd_conv_nth) (simp add: xs')
  have fy: "first_ptr ys = Some (as ! Suc k)"
    using yne k by (simp add: first_ptr_hd) (simp add: ys' hd_drop_conv_nth)
  have lpx: "last_ptr xs = Some (as ! k)" using xne lastx by (simp add: last_ptr_last)
  have lpy: "last_ptr ys = Some (last as)" using yne lasty by (simp add: last_ptr_last)
  have la: "last as = as ! (?n - 1)" using ane by (simp add: last_conv_nth)
  have fa: "first_ptr as = Some (as ! 0)" using ane by (simp add: first_ptr_hd hd_conv_nth)
  from ring_lists [OF r] fa
  have Lt: "lists s this = \<lparr>head = Some (as ! 0), tail = last_ptr as, sz = ?n\<rparr>" by simp
  from ring_lists [OF r1] have L1: "lists s first = \<lparr>head = None, tail = None, sz = 0\<rparr>"
    by simp
  from ring_lists [OF r2] have L2: "lists s second = \<lparr>head = None, tail = None, sz = 0\<rparr>"
    by simp
  have klt: "k < ?n" "?n - 1 < ?n" "2 * k < ?n" using n unfolding k_def by arith+
  from path_nth [OF ring_path [OF r] klt(1)] obtain nx where
    nx: "heap s (as ! k) = Some nx" by blast
  from path_nth [OF ring_path [OF r] klt(2)] la obtain ny where
    ny: "heap s (last as) = Some ny" by auto
  have G3: "get_next (Some (as ! k)) s = Inr (Some (as ! Suc k))"
    using ring_next_nth [OF r klt(1)] k by simp
  have ne: "as ! k \<noteq> last as"
    unfolding la using ring_distinct [OF r] klt k by (simp add: nth_eq_iff_index_eq)
  have FAST: "\<exists>fn fnn. get_next (Some (as ! (2 * k))) s = Inr (Some fn) \<and>
      get_next (Some fn) s = Inr (Some fnn) \<and>
      (if fnn = as ! 0 then fn else as ! (2 * k)) = last as"
  proof (cases "even ?n")
    case True
    with n have e: "Suc (2 * k) = ?n - 1" "Suc (?n - 1) = ?n" unfolding k_def by arith+
    have "get_next (Some (as ! (2 * k))) s = Inr (Some (as ! (?n - 1)))"
      using ring_next_nth [OF r klt(3)] e by simp
    moreover have "get_next (Some (as ! (?n - 1))) s = Inr (Some (as ! 0))"
      using ring_next_nth [OF r klt(2)] e by simp
    ultimately show ?thesis using la by simp
  next
    case False
    with n have e: "Suc (2 * k) = ?n" "2 * k = ?n - 1" "1 < ?n" unfolding k_def by arith+
    have "get_next (Some (as ! (2 * k))) s = Inr (Some (as ! 0))"
      using ring_next_nth [OF r klt(3)] e by simp
    moreover have "get_next (Some (as ! 0)) s = Inr (Some (as ! 1))"
      using ring_next_nth [OF r, of 0] e ane by simp
    moreover have "as ! 1 \<noteq> as ! 0"
      using ring_nth_eq_head [OF r e(3)] by simp
    ultimately show ?thesis using e la by simp
  qed
  then obtain fn fnn where G1: "get_next (Some (as ! (2 * k))) s = Inr (Some fn)"
    and G2: "get_next (Some fn) s = Inr (Some fnn)"
    and F: "(if fnn = as ! 0 then fn else as ! (2 * k)) = last as"
    by blast
  define f0 where "f0 = as ! (2 * k)"
  define sl where "sl = as ! k"
  define t where "t = last as"
  define h1 where "h1 = as ! 0"
  define h2 where "h2 = as ! Suc k"
  have F': "(if fnn = h1 then Some fn else Some f0) = Some t"
    using F by (simp add: f0_def t_def h1_def split: if_splits)
  have sz: "Suc ?n div 2 = length xs" "?n - length xs = length ys"
    using n1 leny lenx by simp_all
  have "split_finish this first second (Some sl) (Some f0) s =
      Inr (s\<lparr>heap := heap ?s', lists := lists ?s'\<rparr>)"
    unfolding H L
    using G1 [folded f0_def] G2 G3 [folded sl_def h2_def] F' Lt [folded h1_def] L1 L2
      nx [folded sl_def] ny [folded t_def] ne [folded sl_def t_def] ids yne
      lastx [folded sl_def] lasty [folded t_def] fx [folded h1_def] fy [folded h2_def]
      lpx [folded sl_def] lpy [folded t_def] sz
    by (cases "first = second") (simp_all add: split_finish_def set_next_def field_defs Let_def)
  then show ?thesis using split_post_shape [of this first second as s]
    by (simp add: sl_def f0_def k_def)
qed

lemma split_pre_rings:
  assumes r: "ring s this as" and r1: "ring s first bs" and r2: "ring s second cs"
    and ids: "this \<noteq> first" "this \<noteq> second" "first \<noteq> second"
    and dj: "set as \<inter> set bs = {}" "set as \<inter> set cs = {}" "set bs \<inter> set cs = {}"
  shows "ring (split_pre first second bs cs s) this as"
    "ring (split_pre first second bs cs s) first []"
    "ring (split_pre first second bs cs s) second []"
    "clear first s = Inr (clear_post first bs s)"
    "clear second (clear_post first bs s) = Inr (split_pre first second bs cs s)"
proof -
  let ?s1 = "clear_post first bs s"
  have a1: "ring ?s1 this as" by (rule clear_post_other [OF r]) (use ids dj in auto)
  have c1: "ring ?s1 second cs" by (rule clear_post_other [OF r2]) (use ids dj in auto)
  have f1: "ring ?s1 first []" by (rule clear_post_ring)
  show "ring (split_pre first second bs cs s) this as"
    unfolding split_pre_def by (rule clear_post_other [OF a1]) (use ids dj in auto)
  show "ring (split_pre first second bs cs s) first []"
    unfolding split_pre_def by (rule clear_post_other [OF f1]) (use ids in auto)
  show "ring (split_pre first second bs cs s) second []"
    unfolding split_pre_def by (rule clear_post_ring)
  show "clear first s = Inr ?s1" by (rule clear_ring [OF r1])
  show "clear second ?s1 = Inr (split_pre first second bs cs s)"
    unfolding split_pre_def by (rule clear_ring [OF c1])
qed

lemma split_tail_ring:
  assumes r: "ring s this as" and r1: "ring s first []" and r2: "ring s second []"
    and ids: "this \<noteq> first" "this \<noteq> second" "first \<noteq> second"
    and c1: "clear first s0 = Inr s1" and c2: "clear second s1 = Inr s"
  shows "splitIntoTwo this first second s0 = Some (Inr (split_post this first second as s))"
proof -
  let ?s' = "split_post this first second as s"
  consider "as = []" | a where "as = [a]" | "2 \<le> length as"
    by (cases as; cases "tl as"; auto)
  then show ?thesis
  proof cases
    case 1
    with r have "head_of this s = None" by (simp add: ring_Nil)
    with 1 show ?thesis by (simp add: splitIntoTwo_def c1 c2 split_post_def)
  next
    case 2
    from ring_lists [OF r] 2
    have Lt: "lists s this = \<lparr>head = Some a, tail = Some a, sz = 1\<rparr>" by simp
    from ring_lists [OF r1] have L1: "lists s first = \<lparr>head = None, tail = None, sz = 0\<rparr>"
      by simp
    from ring_lists [OF r2] have L2: "lists s second = \<lparr>head = None, tail = None, sz = 0\<rparr>"
      by simp
    from ring_live [OF r, of a] 2 obtain nd where nd: "heap s a = Some nd" by auto
    have E: "(lists s)(first := \<lparr>head = Some a, tail = Some a, sz = Suc 0\<rparr>,
                       second := \<lparr>head = None, tail = None, sz = 0\<rparr>,
                       this := \<lparr>head = None, tail = None, sz = 0\<rparr>) =
             (lists s)(first := \<lparr>head = Some a, tail = Some a, sz = Suc 0\<rparr>,
                       this := \<lparr>head = None, tail = None, sz = 0\<rparr>)"
      using L2 ids by (auto simp: fun_eq_iff)
    have P: "split_post this first second [a] s =
        s\<lparr>heap := (heap s)(a \<mapsto> nd\<lparr>nxt := Some a\<rparr>),
          lists := (lists s)(first := \<lparr>head = Some a, tail = Some a, sz = Suc 0\<rparr>,
                             second := \<lparr>head = None, tail = None, sz = 0\<rparr>,
                             this := \<lparr>head = None, tail = None, sz = 0\<rparr>)\<rparr>"
      using nd by (simp add: split_post_def Let_def)
    have "splitIntoTwo this first second s0 =
        Some (Inr (s\<lparr>heap := (heap s)(a \<mapsto> nd\<lparr>nxt := Some a\<rparr>),
          lists := (lists s)(first := \<lparr>head = Some a, tail = Some a, sz = Suc 0\<rparr>,
                             this := \<lparr>head = None, tail = None, sz = 0\<rparr>)\<rparr>))"
      using Lt L1 nd ids
      by (simp add: splitIntoTwo_def c1 c2 field_defs Let_def set_next_def)
    then show ?thesis unfolding 2 P E .
  next
    case 3
    then have ane: "as \<noteq> []" by (cases as) simp_all
    then have fa: "first_ptr as = Some (as ! 0)" by (simp add: first_ptr_hd hd_conv_nth)
    with ring_lists [OF r] have h: "head_of this s = Some (as ! 0)" "sz_of this s = length as"
      by (simp_all add: field_defs)
    from ane have "2 * 0 < length as" by simp
    from split_loop_ring [OF r 3 this]
    have lp: "split_loop (Some (as ! 0)) (Some (as ! 0)) (Some (as ! 0)) s =
       Some (Inr (Some (as ! ((length as - 1) div 2)), Some (as ! (2 * ((length as - 1) div 2)))))"
      by simp
    have fin: "split_finish this first second (Some (as ! ((length as - 1) div 2)))
           (Some (as ! (2 * ((length as - 1) div 2)))) s = Inr ?s'"
      by (rule split_finish_ring [OF r r1 r2 ids(1,2) 3])
    from 3 have "length as \<noteq> 1" by simp
    with h lp fin show ?thesis
      by (simp add: splitIntoTwo_def c1 c2)
  qed
qed

lemma splitIntoTwo_ring:
  assumes r: "ring s this as" and r1: "ring s first bs" and r2: "ring s second cs"
    and ids: "this \<noteq> first" "this \<noteq> second" "first \<noteq> second"
    and dj: "set as \<inter> set bs = {}" "set as \<inter> set cs = {}" "set bs \<inter> set cs = {}"
  shows "splitIntoTwo this first second s =
     Some (Inr (split_post this first second as (split_pre first second bs cs s)))"
  using split_pre_rings [OF assms] ids by (intro split_tail_ring) auto

lemma split_post_data:
  "data (the (heap (split_post this first second as s) x)) = data (the (heap s x))"
proof (cases "as = []")
  case True
  then show ?thesis by (simp add: split_post_def)
next
  case False
  define xs where "xs = take ((length as + 1) div 2) as"
  define ys where "ys = drop ((length as + 1) div 2) as"
  show ?thesis
    unfolding split_post_heap [OF False xs_def ys_def]
    by (cases "x = last xs"; cases "x = last ys") simp_all
qed

lemma split_post_heap_frame:
  assumes "x \<notin> set as"
  shows "heap (split_post this first second as s) x = heap s x"
proof (cases "as = []")
  case True
  then show ?thesis by (simp add: split_post_def)
next
  case False
  define xs where "xs = take ((length as + 1) div 2) as"
  define ys where "ys = drop ((length as + 1) div 2) as"
  have cat: "xs @ ys = as" by (simp add: xs_def ys_def)
  have xne: "xs \<noteq> []" using False by (cases as) (simp_all add: xs_def)
  then have "last xs \<in> set as" using cat last_in_set [OF xne] by auto
  with assms have 1: "x \<noteq> last xs" by auto
  have 2: "x \<noteq> last ys" if "ys \<noteq> []"
    using cat last_in_set [OF that] assms by auto
  show ?thesis
    unfolding split_post_heap [OF False xs_def ys_def] using 1 2 by simp
qed

lemma split_post_live:
  assumes "ring s this as"
  shows "heap (split_post this first second as s) x = None \<longleftrightarrow> heap s x = None"
proof (cases "as = []")
  case True
  then show ?thesis by (simp add: split_post_def)
next
  case False
  define xs where "xs = take ((length as + 1) div 2) as"
  define ys where "ys = drop ((length as + 1) div 2) as"
  have cat: "xs @ ys = as" by (simp add: xs_def ys_def)
  have xne: "xs \<noteq> []" using False by (cases as) (simp_all add: xs_def)
  then have "last xs \<in> set as" using cat last_in_set [OF xne] by auto
  from ring_live [OF assms this] have 1: "heap s (last xs) \<noteq> None" .
  have 2: "heap s (last ys) \<noteq> None" if "ys \<noteq> []"
  proof -
    have "last ys \<in> set as" using cat last_in_set [OF that] by auto
    from ring_live [OF assms this] show ?thesis .
  qed
  show ?thesis
    unfolding split_post_heap [OF False xs_def ys_def] using 1 2
    by (cases "x = last xs"; cases "x = last ys"; cases "ys = []") simp_all
qed

lemma split_post_heap_ok:
  assumes "heap_ok s" "ring s this as"
  shows "heap_ok (split_post this first second as s)"
  using assms(1) by (simp add: heap_ok_def split_post_avail split_post_live [OF assms(2)])

lemma split_post_elems:
  "elems (split_post this first second as s) zs = elems s zs"
  by (simp add: elems_def split_post_data)

lemma clear_post_elems:
  "set zs \<inter> set as = {} \<Longrightarrow> elems (clear_post l as s) zs = elems s zs"
proof (rule elems_frame, rule ballI)
  fix a assume "set zs \<inter> set as = {}" "a \<in> set zs"
  then have "a \<notin> set as" by auto
  then show "heap (clear_post l as s) a = heap s a" by (simp add: clear_post_frame)
qed

lemma ring_size: "ring s l as \<Longrightarrow> size_op l s = length as"
  by (simp add: ring_def size_op_def)

lemma ring_empty_op: "ring s l as \<Longrightarrow> empty_op l s \<longleftrightarrow> as = []"
  by (simp add: empty_op_def ring_empty_iff)

lemma ring_invariant: "ring s l as \<Longrightarrow> invariant l s"
proof (cases "as = []")
  case True
  assume "ring s l as"
  with True show ?thesis by (simp add: ring_Nil invariant_def)
next
  case False
  assume r: "ring s l as"
  from False obtain a t where ft: "first_ptr as = Some a" "last_ptr as = Some t"
    by (auto simp: first_ptr_hd last_ptr_last)
  from r ft have h: "head_of l s = Some a" "tail_of l s = Some t" "sz_of l s = length as"
    by (simp_all add: ring_def)
  have n: "get_next (tail_of l s) s = Inr (head_of l s)"
    by (rule ring_last_next [OF r False])
  have "walk (length as) (first_ptr as) s = Inr (first_ptr as)"
    by (rule walk_path [OF ring_path [OF r]])
  with ft h have w: "walk (sz_of l s) (head_of l s) s = Inr (head_of l s)" by simp
  from h n w False show ?thesis by (simp add: invariant_def)
qed

lemma append_op_facts:
  assumes r: "ring s l as" and ok: "heap_ok s" and av: "avail s = a # rest"
  shows "append_op l v s = Inr (append_post l v as s)"
    "ring (append_post l v as s) l (as @ [a])"
    "heap_ok (append_post l v as s)"
    "elems (append_post l v as s) (as @ [a]) = elems s as @ [v]"
    "avail (append_post l v as s) = rest"
proof -
  from ok av have fr: "heap s a = None" by (simp add: heap_ok_def)
  then have na: "a \<notin> set as" by (rule ring_fresh [OF r])
  show "append_op l v s = Inr (append_post l v as s)" by (rule append_op_ring [OF r av fr])
  show "ring (append_post l v as s) l (as @ [a])" by (rule append_post_ring [OF r av fr])
  show "heap_ok (append_post l v as s)" using av by (intro append_post_heap_ok [OF ok r]) simp
  show "elems (append_post l v as s) (as @ [a]) = elems s as @ [v]"
    using append_post_elems [of s as l v] na av by simp
  show "avail (append_post l v as s) = rest" using av by (simp add: append_post_frame)
qed

lemma pop_front_facts:
  assumes r: "ring s l (a # rest)" and ok: "heap_ok s"
  shows "pop_front l s = Inr (True, pop_post l (a # rest) s)"
    "ring (pop_post l (a # rest) s) l rest"
    "heap_ok (pop_post l (a # rest) s)"
    "elems (pop_post l (a # rest) s) rest = elems s rest"
    "avail (pop_post l (a # rest) s) = a # avail s"
  using pop_front_ring [OF r] pop_post_ring [OF r] pop_post_heap_ok [OF ok r]
    pop_post_elems [OF ring_distinct [OF r]] by (simp_all add: pop_post_frame)

lemma appends_ring:
  "ring s l as \<Longrightarrow> heap_ok s \<Longrightarrow> length vs \<le> length (avail s) \<Longrightarrow>
     \<exists>s'. appends l vs s = Inr s' \<and> ring s' l (as @ take (length vs) (avail s)) \<and> heap_ok s' \<and>
          elems s' (as @ take (length vs) (avail s)) = elems s as @ vs \<and>
          avail s' = drop (length vs) (avail s)"
proof (induction vs arbitrary: s as)
  case Nil
  then show ?case by simp
next
  case (Cons v vs)
  from Cons.prems(3) obtain a rest where av: "avail s = a # rest" by (cases "avail s") auto
  note A = append_op_facts [OF Cons.prems(1,2) av, of v]
  from Cons.prems(3) av have "length vs \<le> length (avail (append_post l v as s))"
    by (simp add: A(5))
  from Cons.IH [OF A(2,3) this] A(1,4,5) av show ?case by simp
qed

lemma pops_ring:
  "ring s l as \<Longrightarrow> heap_ok s \<Longrightarrow> k \<le> length as \<Longrightarrow>
     \<exists>s'. pops l k s = Inr (replicate k True, s') \<and> ring s' l (drop k as) \<and> heap_ok s' \<and>
          elems s' (drop k as) = drop k (elems s as)"
proof (induction k arbitrary: s as)
  case 0
  then show ?case by simp
next
  case (Suc k)
  from Suc.prems(3) obtain a rest where as: "as = a # rest" by (cases as) auto
  note P = pop_front_facts [OF Suc.prems(1) [unfolded as] Suc.prems(2)]
  from Suc.prems(3) as have "k \<le> length rest" by simp
  from Suc.IH [OF P(2,3) this] obtain s' where
    s': "pops l k (pop_post l (a # rest) s) = Inr (replicate k True, s')"
      "ring s' l (drop k rest)" "heap_ok s'"
      "elems s' (drop k rest) = drop k (elems (pop_post l (a # rest) s) rest)"
    by blast
  have "drop k (elems s rest) = drop (Suc k) (elems s as)" by (simp add: as elems_def)
  with s' P(1,4) as show ?case by simp
qed

section \<open>The claims\<close>

text \<open>
  C9. \<^verbatim>\<open>append\<close> and allocation failure: when \<^verbatim>\<open>new\<close> throws, the exception leaves
  \<^verbatim>\<open>append\<close> with the state the call started in, so no link, head, tail or size has
  changed. When the allocation succeeds, the size grows by one, the new node is the tail
  and holds the value, the head-to-tail sequence gains the value at its end, and an
  empty ring becomes one node that is head and tail and its own successor.
\<close>

theorem C9_append_atomic:
  assumes "ring s l as" and "heap_ok s"
  shows "(avail s = [] \<longrightarrow> append_op l v s = Inl (BadAlloc s)) \<and>
    (avail s \<noteq> [] \<longrightarrow>
       (\<exists>s' xs. append_op l v s = Inr s' \<and> size_op l s' = size_op l s + 1 \<and>
          get_data (tail_of l s') s' = Inr v \<and>
          to_list l s = Inr xs \<and> to_list l s' = Inr (xs @ [v]) \<and>
          (empty_op l s \<longrightarrow>
             head_of l s' = tail_of l s' \<and> get_next (head_of l s') s' = Inr (head_of l s'))))"
proof (intro conjI impI)
  assume "avail s = []"
  then show "append_op l v s = Inl (BadAlloc s)" by (rule append_fail)
next
  assume "avail s \<noteq> []"
  then obtain a rest where av: "avail s = a # rest" by (cases "avail s") auto
  let ?s' = "append_post l v as s"
  note A = append_op_facts [OF assms av, of v]
  have sz: "size_op l ?s' = size_op l s + 1"
    using ring_size [OF A(2)] ring_size [OF assms(1)] by simp
  have tl: "tail_of l ?s' = Some a" using A(2) by (simp add: ring_def)
  from ring_live [OF A(2), of a] obtain na where na: "heap ?s' a = Some na" by auto
  have "elems ?s' (as @ [a]) = elems s as @ [v]" by (rule A(4))
  then have "data (the (heap ?s' a)) = v" by (simp add: elems_def)
  with na tl have d: "get_data (tail_of l ?s') ?s' = Inr v" by (simp add: get_data_def)
  have t1: "to_list l s = Inr (elems s as)" by (rule ring_to_list [OF assms(1)])
  have t2: "to_list l ?s' = Inr (elems s as @ [v])"
    using ring_to_list [OF A(2)] A(4) by simp
  have e: "head_of l ?s' = tail_of l ?s' \<and> get_next (head_of l ?s') ?s' = Inr (head_of l ?s')"
    if "empty_op l s"
  proof -
    from that assms(1) have "as = []" by (simp add: ring_empty_op)
    with A(2) have r1: "ring ?s' l [a]" by simp
    then have "head_of l ?s' = Some a" by (simp add: ring_def)
    moreover from ring_last_next [OF r1] have "get_next (tail_of l ?s') ?s' = Inr (head_of l ?s')"
      by simp
    ultimately show ?thesis using tl by simp
  qed
  from A(1) sz d t1 t2 e
  show "\<exists>s' xs. append_op l v s = Inr s' \<and> size_op l s' = size_op l s + 1 \<and>
          get_data (tail_of l s') s' = Inr v \<and>
          to_list l s = Inr xs \<and> to_list l s' = Inr (xs @ [v]) \<and>
          (empty_op l s \<longrightarrow>
             head_of l s' = tail_of l s' \<and> get_next (head_of l s') s' = Inr (head_of l s'))"
    by blast
qed

theorem C9_append_atomic_witness:
  "ring demo3 0 [10, 11, 12] \<and> heap_ok demo3 \<and> avail demo3 \<noteq> [] \<and>
   (\<exists>s'. append_op 0 4 demo3 = Inr s' \<and> size_op 0 s' = 4 \<and> to_list 0 s' = Inr [1, 2, 3, 4]) \<and>
   ring demo3_full 0 [10, 11, 12] \<and> heap_ok demo3_full \<and> avail demo3_full = [] \<and>
   append_op 0 4 demo3_full = Inl (BadAlloc demo3_full)"
proof -
  have r: "ring demo3 0 [10, 11, 12]"
    by (simp add: ring_def last_ptr_def demo3_def field_defs)
  have ok: "heap_ok demo3" by (simp add: heap_ok_def demo3_def)
  have av: "avail demo3 \<noteq> []" by (simp add: demo3_def)
  have sz: "size_op 0 demo3 = 3" by (simp add: size_op_def sz_of_def demo3_def)
  have tl: "to_list 0 demo3 = Inr [1, 2, 3]"
    using ring_to_list [OF r] by (simp add: elems_def demo3_def)
  have r': "ring demo3_full 0 [10, 11, 12]"
    by (simp add: ring_def last_ptr_def demo3_full_def demo3_def field_defs)
  have ok': "heap_ok demo3_full" by (simp add: heap_ok_def demo3_full_def)
  have av': "avail demo3_full = []" by (simp add: demo3_full_def)
  from C9_append_atomic [OF r ok, of 4] av sz tl
  have "\<exists>s'. append_op 0 4 demo3 = Inr s' \<and> size_op 0 s' = 4 \<and> to_list 0 s' = Inr [1, 2, 3, 4]"
    by auto
  moreover from C9_append_atomic [OF r' ok', of 4] av'
  have "append_op 0 4 demo3_full = Inl (BadAlloc demo3_full)" by simp
  ultimately show ?thesis using r ok av r' ok' av' by simp
qed

text \<open>
  C8. \<^verbatim>\<open>front\<close> on a non-empty ring returns, without reaching an error, a reference to
  the element that the head-to-tail traversal visits first. The function has no
  emptiness check: on an empty ring it follows the null \<^verbatim>\<open>head_\<close>, which is undefined
  behaviour (\<open>NullDeref\<close> in the model), so the call is outside the contract.
\<close>

theorem C8_front:
  assumes "ring s l as"
  shows "(\<not> empty_op l s \<longrightarrow>
           (\<exists>r x xs. front l s = Inr r \<and> head_of l s = Some r \<and> read_ref r s = Inr x \<and>
              to_list l s = Inr (x # xs))) \<and>
         (empty_op l s \<longrightarrow> front l s = Inl NullDeref)"
proof (intro conjI impI)
  assume "\<not> empty_op l s"
  with assms obtain a rest where as: "as = a # rest" by (cases as) (auto simp: ring_empty_op)
  note F = front_ring [OF assms [unfolded as]]
  from assms as have "head_of l s = Some a" by (simp add: ring_def)
  moreover have "to_list l s = Inr (hd (elems s (a # rest)) # elems s rest)"
    using ring_to_list [OF assms] as by (simp add: elems_def)
  ultimately show "\<exists>r x xs. front l s = Inr r \<and> head_of l s = Some r \<and> read_ref r s = Inr x \<and>
      to_list l s = Inr (x # xs)"
    using F by blast
next
  assume "empty_op l s"
  with assms have "ring s l []" by (simp add: ring_empty_op)
  then show "front l s = Inl NullDeref" by (rule front_empty)
qed

theorem C8_front_witness:
  "ring demo3 0 [10, 11, 12] \<and> \<not> empty_op 0 demo3 \<and>
   (\<exists>r. front 0 demo3 = Inr r \<and> read_ref r demo3 = Inr 1) \<and>
   ring (init_state [] :: int state) 0 [] \<and> empty_op 0 (init_state [] :: int state) \<and>
   front 0 (init_state [] :: int state) = Inl NullDeref"
proof -
  have r: "ring demo3 0 [10, 11, 12]"
    by (simp add: ring_def last_ptr_def demo3_def field_defs)
  have ne: "\<not> empty_op 0 demo3" by (simp add: empty_op_def head_of_def demo3_def)
  have tl: "to_list 0 demo3 = Inr [1, 2, 3]"
    using ring_to_list [OF r] by (simp add: elems_def demo3_def)
  have r0: "ring (init_state [] :: int state) 0 []"
    by (simp add: ring_def init_state_def field_defs)
  have e0: "empty_op 0 (init_state [] :: int state)"
    by (simp add: empty_op_def head_of_def init_state_def)
  from C8_front [OF r] ne tl
  have "\<exists>r. front 0 demo3 = Inr r \<and> read_ref r demo3 = Inr 1" by auto
  moreover from C8_front [OF r0] e0
  have "front 0 (init_state [] :: int state) = Inl NullDeref" by simp
  ultimately show ?thesis using r ne r0 e0 by simp
qed

text \<open>
  C5. \<^verbatim>\<open>pop_front\<close> returns \<^verbatim>\<open>false\<close> and changes nothing exactly when the ring is
  empty. On a non-empty ring it returns \<^verbatim>\<open>true\<close>, the size drops by one and the
  head-to-tail sequence loses its first element; a ring of one node becomes empty, and in
  a longer ring the head moves to the successor of the removed node, the tail stays and
  its successor is the new head. After any appends that all succeed, as many calls of
  \<^verbatim>\<open>pop_front\<close> as the ring has elements (\<open>n\<close> calls after \<open>n\<close> appends to an empty
  ring) return \<^verbatim>\<open>true\<close> and the next call returns \<^verbatim>\<open>false\<close> on the empty ring.
\<close>

theorem C5_pop_front:
  assumes "ring s l as" and "heap_ok s"
  shows "(pop_front l s = Inr (False, s) \<longleftrightarrow> empty_op l s) \<and>
    (\<not> empty_op l s \<longrightarrow>
       (\<exists>s' x xs. pop_front l s = Inr (True, s') \<and> size_op l s' = size_op l s - 1 \<and>
          to_list l s = Inr (x # xs) \<and> to_list l s' = Inr xs \<and>
          (size_op l s = 1 \<longrightarrow> empty_op l s' \<and> tail_of l s' = None \<and> size_op l s' = 0) \<and>
          (size_op l s \<noteq> 1 \<longrightarrow>
             get_next (head_of l s) s = Inr (head_of l s') \<and> tail_of l s' = tail_of l s \<and>
             get_next (tail_of l s') s' = Inr (head_of l s')))) \<and>
    (\<forall>vs. length vs \<le> length (avail s) \<longrightarrow>
       (\<exists>s1 s2. appends l vs s = Inr s1 \<and> size_op l s1 = size_op l s + length vs \<and>
          pops l (size_op l s1) s1 = Inr (replicate (size_op l s1) True, s2) \<and>
          empty_op l s2 \<and> pop_front l s2 = Inr (False, s2)))"
proof (intro conjI impI allI)
  show "pop_front l s = Inr (False, s) \<longleftrightarrow> empty_op l s"
  proof (cases as)
    case Nil
    with assms(1) show ?thesis by (simp add: pop_front_empty ring_empty_op)
  next
    case (Cons a rest)
    with assms(1) pop_front_ring [of s l a rest] show ?thesis by (simp add: ring_empty_op)
  qed
next
  assume "\<not> empty_op l s"
  with assms(1) obtain a rest where as: "as = a # rest"
    by (cases as) (auto simp: ring_empty_op)
  let ?s' = "pop_post l (a # rest) s"
  note r = assms(1) [unfolded as]
  note P = pop_front_facts [OF r assms(2)]
  have sz: "size_op l s = Suc (length rest)" "size_op l ?s' = length rest"
    using ring_size [OF r] ring_size [OF P(2)] by simp_all
  have t1: "to_list l s = Inr (hd (elems s (a # rest)) # elems s rest)"
    using ring_to_list [OF r] by (simp add: elems_def)
  have t2: "to_list l ?s' = Inr (elems s rest)"
    using ring_to_list [OF P(2)] P(4) by simp
  have one: "empty_op l ?s' \<and> tail_of l ?s' = None \<and> size_op l ?s' = 0" if "size_op l s = 1"
  proof -
    from that sz have "rest = []" by simp
    with P(2) show ?thesis by (simp add: ring_Nil empty_op_def size_op_def)
  qed
  have more: "get_next (head_of l s) s = Inr (head_of l ?s') \<and> tail_of l ?s' = tail_of l s \<and>
      get_next (tail_of l ?s') ?s' = Inr (head_of l ?s')" if "size_op l s \<noteq> 1"
  proof -
    from that sz have ne: "rest \<noteq> []" by auto
    from ring_next_nth [OF r, of 0] ne
    have "get_next (Some a) s = Inr (Some (hd rest))"
      by (cases rest) simp_all
    moreover from r have "head_of l s = Some a" by (simp add: ring_def)
    moreover from P(2) ne have "head_of l ?s' = Some (hd rest)"
      by (simp add: ring_def first_ptr_hd)
    moreover from r P(2) ne have "tail_of l ?s' = tail_of l s"
      by (simp add: ring_def last_ptr_Cons)
    moreover have "get_next (tail_of l ?s') ?s' = Inr (head_of l ?s')"
      by (rule ring_last_next [OF P(2) ne])
    ultimately show ?thesis by simp
  qed
  have szd: "size_op l ?s' = size_op l s - 1" using sz by simp
  from P(1) szd t1 t2 one more
  show "\<exists>s' x xs. pop_front l s = Inr (True, s') \<and> size_op l s' = size_op l s - 1 \<and>
          to_list l s = Inr (x # xs) \<and> to_list l s' = Inr xs \<and>
          (size_op l s = 1 \<longrightarrow> empty_op l s' \<and> tail_of l s' = None \<and> size_op l s' = 0) \<and>
          (size_op l s \<noteq> 1 \<longrightarrow>
             get_next (head_of l s) s = Inr (head_of l s') \<and> tail_of l s' = tail_of l s \<and>
             get_next (tail_of l s') s' = Inr (head_of l s'))"
    by blast
next
  fix vs :: "'a list"
  assume len: "length vs \<le> length (avail s)"
  from appends_ring [OF assms len] obtain s1 where
    s1: "appends l vs s = Inr s1" "ring s1 l (as @ take (length vs) (avail s))" "heap_ok s1"
    by blast
  let ?bs = "as @ take (length vs) (avail s)"
  have sz1: "size_op l s1 = size_op l s + length vs"
    using ring_size [OF s1(2)] ring_size [OF assms(1)] len by simp
  have "length ?bs \<le> length ?bs" by simp
  from pops_ring [OF s1(2,3) this] obtain s2 where
    s2: "pops l (length ?bs) s1 = Inr (replicate (length ?bs) True, s2)" "ring s2 l []"
    by auto
  from s2(2) have "empty_op l s2" "pop_front l s2 = Inr (False, s2)"
    by (simp_all add: ring_empty_op pop_front_empty)
  with s1(1) sz1 s2(1) ring_size [OF s1(2)]
  show "\<exists>s1 s2. appends l vs s = Inr s1 \<and> size_op l s1 = size_op l s + length vs \<and>
          pops l (size_op l s1) s1 = Inr (replicate (size_op l s1) True, s2) \<and>
          empty_op l s2 \<and> pop_front l s2 = Inr (False, s2)"
    by auto
qed

theorem C5_pop_front_witness:
  "ring demo3 0 [10, 11, 12] \<and> heap_ok demo3 \<and> \<not> empty_op 0 demo3 \<and> size_op 0 demo3 \<noteq> 1 \<and>
   (\<exists>s'. pop_front 0 demo3 = Inr (True, s') \<and> size_op 0 s' = 2 \<and> to_list 0 s' = Inr [2, 3] \<and>
      head_of 0 s' = Some 11 \<and> get_next (tail_of 0 s') s' = Inr (Some 11)) \<and>
   length [4, 5 :: int] \<le> length (avail demo3) \<and>
   (\<exists>s1 s2. appends 0 [4, 5] demo3 = Inr s1 \<and> pops 0 5 s1 = Inr (replicate 5 True, s2) \<and>
      pop_front 0 s2 = Inr (False, s2)) \<and>
   ring (init_state [] :: int state) 0 [] \<and> heap_ok (init_state [] :: int state) \<and>
   empty_op 0 (init_state [] :: int state) \<and>
   pop_front 0 (init_state [] :: int state) = Inr (False, init_state [])"
proof -
  have r: "ring demo3 0 [10, 11, 12]"
    by (simp add: ring_def last_ptr_def demo3_def field_defs)
  have ok: "heap_ok demo3" by (simp add: heap_ok_def demo3_def)
  have ne: "\<not> empty_op 0 demo3" by (simp add: empty_op_def head_of_def demo3_def)
  have sz: "size_op 0 demo3 = 3" by (simp add: size_op_def sz_of_def demo3_def)
  have tl: "to_list 0 demo3 = Inr [1, 2, 3]"
    using ring_to_list [OF r] by (simp add: elems_def demo3_def)
  have hn: "get_next (head_of 0 demo3) demo3 = Inr (Some 11)"
    by (simp add: get_next_def head_of_def demo3_def)
  have len: "length [4, 5 :: int] \<le> length (avail demo3)" by (simp add: demo3_def)
  have r0: "ring (init_state [] :: int state) 0 []"
    by (simp add: ring_def init_state_def field_defs)
  have ok0: "heap_ok (init_state [] :: int state)" by (simp add: heap_ok_def init_state_def)
  have e0: "empty_op 0 (init_state [] :: int state)"
    by (simp add: empty_op_def head_of_def init_state_def)
  note T = C5_pop_front [OF r ok]
  from T ne sz tl hn
  have 1: "\<exists>s'. pop_front 0 demo3 = Inr (True, s') \<and> size_op 0 s' = 2 \<and>
      to_list 0 s' = Inr [2, 3] \<and> head_of 0 s' = Some 11 \<and>
      get_next (tail_of 0 s') s' = Inr (Some 11)"
    by auto
  from T len sz
  have 2: "\<exists>s1 s2. appends 0 [4, 5] demo3 = Inr s1 \<and> pops 0 5 s1 = Inr (replicate 5 True, s2) \<and>
      pop_front 0 s2 = Inr (False, s2)"
    by (elim conjE allE [of _ "[4, 5]"]) auto
  from C5_pop_front [OF r0 ok0] e0
  have 3: "pop_front 0 (init_state [] :: int state) = Inr (False, init_state [])" by simp
  from r ok ne sz 1 len 2 r0 ok0 e0 3 show ?thesis by simp
qed

text \<open>
  C7. \<^verbatim>\<open>display\<close> prints one line: \<^verbatim>\<open>[] (empty)\<close> for an empty ring, and for a ring of
  the elements \<open>e1, ..., en\<close> (as many as \<^verbatim>\<open>size()\<close>, in head-to-tail order) the line
  \<^verbatim>\<open>[e1 -> e2 -> ... -> en] (circular)\<close>, each element printed by its \<^verbatim>\<open>operator<<\<close>;
  the line ends with a newline. After appending 1, 2, 3, 4, 5 to an empty ring of
  \<^verbatim>\<open>int\<close> the line is \<^verbatim>\<open>[1 -> 2 -> 3 -> 4 -> 5] (circular)\<close>.
\<close>

theorem C7_display:
  assumes "ring s l as"
  shows "(\<exists>xs. to_list l s = Inr xs \<and> length xs = size_op l s \<and>
            display l shw s =
              Inr ((if xs = [] then ''[] (empty)''
                    else ''['' @ join '' -> '' (map shw xs) @ ''] (circular)'') @ newline)) \<and>
         (\<forall>(s0 :: int state) l0.
            ring s0 l0 [] \<and> heap_ok s0 \<and> 5 \<le> length (avail s0) \<longrightarrow>
            (\<exists>s'. appends l0 [1, 2, 3, 4, 5] s0 = Inr s' \<and>
               display l0 show_int s' = Inr (''[1 -> 2 -> 3 -> 4 -> 5] (circular)'' @ newline)))"
proof (intro conjI allI impI)
  have "to_list l s = Inr (elems s as)" by (rule ring_to_list [OF assms])
  moreover have "length (elems s as) = size_op l s"
    using ring_size [OF assms] by (simp add: elems_def)
  moreover have "display l shw s =
      Inr ((if elems s as = [] then ''[] (empty)''
            else ''['' @ join '' -> '' (map shw (elems s as)) @ ''] (circular)'') @ newline)"
    using display_ring [OF assms, of shw] by (simp add: elems_def)
  ultimately show "\<exists>xs. to_list l s = Inr xs \<and> length xs = size_op l s \<and>
      display l shw s =
        Inr ((if xs = [] then ''[] (empty)''
              else ''['' @ join '' -> '' (map shw xs) @ ''] (circular)'') @ newline)"
    by blast
next
  fix s0 :: "int state" and l0
  assume a: "ring s0 l0 [] \<and> heap_ok s0 \<and> 5 \<le> length (avail s0)"
  then have r0: "ring s0 l0 []" and ok0: "heap_ok s0"
    and len: "length [1, 2, 3, 4, 5 :: int] \<le> length (avail s0)"
    by simp_all
  define ns where "ns = [] @ take (length [1, 2, 3, 4, 5 :: int]) (avail s0)"
  have e0: "elems s0 [] = []" by (simp add: elems_def)
  from appends_ring [OF r0 ok0 len] obtain s' where
    s': "appends l0 [1, 2, 3, 4, 5] s0 = Inr s'" "ring s' l0 ns"
      "elems s' ns = [1, 2, 3, 4, 5]"
    unfolding ns_def [symmetric] e0 by auto
  from s'(3) have ne: "ns \<noteq> []" by (auto simp: elems_def)
  have "display l0 show_int s' =
      Inr (''['' @ join '' -> '' (map show_int [1, 2, 3, 4, 5]) @ ''] (circular)'' @ newline)"
    using display_ring [OF s'(2), of show_int] ne s'(3) by simp
  then have "display l0 show_int s' = Inr (''[1 -> 2 -> 3 -> 4 -> 5] (circular)'' @ newline)"
    by (simp add: show_int_def show_nat.simps)
  with s'(1)
  show "\<exists>s'. appends l0 [1, 2, 3, 4, 5] s0 = Inr s' \<and>
      display l0 show_int s' = Inr (''[1 -> 2 -> 3 -> 4 -> 5] (circular)'' @ newline)"
    by blast
qed

theorem C7_display_witness:
  "ring demo3 0 [10, 11, 12] \<and>
   display 0 show_int demo3 = Inr (''[1 -> 2 -> 3] (circular)'' @ newline) \<and>
   ring (init_state [20, 21, 22, 23, 24] :: int state) 0 [] \<and>
   heap_ok (init_state [20, 21, 22, 23, 24] :: int state) \<and>
   5 \<le> length (avail (init_state [20, 21, 22, 23, 24] :: int state)) \<and>
   display 0 show_int (init_state [20, 21, 22, 23, 24]) = Inr (''[] (empty)'' @ newline) \<and>
   (\<exists>s'. appends 0 [1, 2, 3, 4, 5] (init_state [20, 21, 22, 23, 24]) = Inr s' \<and>
      display 0 show_int s' = Inr (''[1 -> 2 -> 3 -> 4 -> 5] (circular)'' @ newline))"
proof -
  let ?i = "init_state [20, 21, 22, 23, 24] :: int state"
  have r: "ring demo3 0 [10, 11, 12]"
    by (simp add: ring_def last_ptr_def demo3_def field_defs)
  have tl: "to_list 0 demo3 = Inr [1, 2, 3]"
    using ring_to_list [OF r] by (simp add: elems_def demo3_def)
  have r0: "ring ?i 0 []" by (simp add: ring_def init_state_def field_defs)
  have ok0: "heap_ok ?i" by (simp add: heap_ok_def init_state_def)
  have l0: "5 \<le> length (avail ?i)" by (simp add: init_state_def)
  have t0: "to_list 0 ?i = Inr []"
    using ring_to_list [OF r0] by (simp add: elems_def)
  from C7_display [OF r, of show_int] tl
  have 1: "display 0 show_int demo3 = Inr (''[1 -> 2 -> 3] (circular)'' @ newline)"
    by (auto simp: show_int_def show_nat.simps)
  from C7_display [OF r0, of show_int] t0
  have 2: "display 0 show_int ?i = Inr (''[] (empty)'' @ newline)"
    by auto
  from C7_display [OF r0, of show_int] r0 ok0 l0
  have 3: "\<exists>s'. appends 0 [1, 2, 3, 4, 5] ?i = Inr s' \<and>
      display 0 show_int s' = Inr (''[1 -> 2 -> 3 -> 4 -> 5] (circular)'' @ newline)"
    by blast
  from r 1 r0 ok0 l0 2 3 show ?thesis by simp
qed

lemma lists_upd_same:
  assumes "lists s l = X"
  shows "s\<lparr>lists := (lists s)(l := X)\<rparr> = s"
proof -
  from assms have "(lists s)(l := X) = lists s" by auto
  then show ?thesis by simp
qed

lemma rot_post_0: "ring s l as \<Longrightarrow> rot_post l as 0 s = s"
  using lists_upd_same [OF ring_lists [of s l as]] by (simp add: rot_post_def)

lemma rot_post_length: "ring s l as \<Longrightarrow> rot_post l as (length as) s = s"
  using lists_upd_same [OF ring_lists [of s l as]] by (simp add: rot_post_def)

lemma rot_post_Suc: "rot_post l (rotate1 as) k (rotate_post l as s) = rot_post l as (Suc k) s"
  by (simp add: rot_post_def rotate_post_def rotate1_rotate_swap)

lemma rot_post_frame:
  "heap (rot_post l as k s) = heap s" "avail (rot_post l as k s) = avail s"
  "l' \<noteq> l \<Longrightarrow> lists (rot_post l as k s) l' = lists s l'"
  by (simp_all add: rot_post_def)

lemma rot_post_elems: "elems (rot_post l as k s) (rotate k as) = rotate k (elems s as)"
  by (simp add: elems_def rot_post_def rotate_map)

lemma repeat_rotate:
  "ring s l as \<Longrightarrow>
     repeat_op k (rotate_op l) s = Inr (rot_post l as k s) \<and> ring (rot_post l as k s) l (rotate k as)"
proof (induction k arbitrary: s as)
  case 0
  then show ?case by (simp add: rot_post_0)
next
  case (Suc k)
  note R = rotate_post_ring [OF Suc.prems]
  from Suc.IH [OF R] rotate_op_ring [OF Suc.prems] show ?case
    by (simp add: rot_post_Suc rotate1_rotate_swap)
qed

lemma front_value_ring:
  assumes "ring s l as" "as \<noteq> []"
  shows "front_value l s = Inr (hd (elems s as))"
proof -
  from assms(2) obtain a rest where as: "as = a # rest" by (cases as) auto
  from front_ring [OF assms(1) [unfolded as]] as show ?thesis by (simp add: front_value_def)
qed

lemma pop_append_ring:
  assumes r: "ring s l as" and ok: "heap_ok s"
  shows "\<exists>s'. pop_append l s = Inr s' \<and> ring s' l (rotate1 as) \<and> heap_ok s' \<and>
           elems s' (rotate1 as) = rotate1 (elems s as)"
proof (cases as)
  case Nil
  with r ok show ?thesis by (simp add: pop_append_def ring_empty_op elems_def)
next
  case (Cons a rest)
  note r' = r [unfolded Cons]
  note F = front_ring [OF r']
  note P = pop_front_facts [OF r' ok]
  let ?x = "hd (elems s (a # rest))"
  let ?s1 = "pop_post l (a # rest) s"
  note A = append_op_facts [OF P(2,3,5), of ?x]
  have ne: "\<not> empty_op l s" using r Cons by (simp add: ring_empty_op)
  have "pop_append l s = Inr (append_post l ?x rest ?s1)"
    using ne F P(1) A(1) by (simp add: pop_append_def)
  moreover have "elems (append_post l ?x rest ?s1) (rest @ [a]) = elems s rest @ [?x]"
    using A(4) P(4) by simp
  then have "elems (append_post l ?x rest ?s1) (rotate1 as) = rotate1 (elems s as)"
    using Cons by (simp add: elems_def)
  ultimately show ?thesis using A(2,3) Cons by simp
qed

lemma repeat_pop_append:
  "ring s l as \<Longrightarrow> heap_ok s \<Longrightarrow>
     \<exists>s'. repeat_op k (pop_append l) s = Inr s' \<and> ring s' l (rotate k as) \<and> heap_ok s' \<and>
          elems s' (rotate k as) = rotate k (elems s as)"
proof (induction k arbitrary: s as)
  case 0
  then show ?case by simp
next
  case (Suc k)
  from pop_append_ring [OF Suc.prems] obtain s1 where
    s1: "pop_append l s = Inr s1" "ring s1 l (rotate1 as)" "heap_ok s1"
      "elems s1 (rotate1 as) = rotate1 (elems s as)"
    by blast
  from Suc.IH [OF s1(2,3)] obtain s' where
    s': "repeat_op k (pop_append l) s1 = Inr s'" "ring s' l (rotate k (rotate1 as))" "heap_ok s'"
      "elems s' (rotate k (rotate1 as)) = rotate k (elems s1 (rotate1 as))"
    by blast
  from s1(1,4) s' show ?case by (simp add: rotate1_rotate_swap)
qed

text \<open>
  C6. \<^verbatim>\<open>rotate\<close> changes nothing on a ring of at most one node. On a longer ring head and
  tail each move to their successor and no node is touched. For every \<open>k\<close>, \<open>k\<close> calls
  of \<^verbatim>\<open>rotate\<close> keep the size and leave the head-to-tail sequence that \<open>k\<close> rounds of
  ``\<^verbatim>\<open>pop_front\<close>, then \<^verbatim>\<open>append\<close> of the popped element'' leave, namely the original
  sequence rotated by \<open>k\<close>; the front elements agree as well.
\<close>

theorem C6_rotate:
  assumes "ring s l as" and "heap_ok s"
  shows "(size_op l s \<le> 1 \<longrightarrow> rotate_op l s = Inr s) \<and>
    (2 \<le> size_op l s \<longrightarrow>
       (\<exists>s'. rotate_op l s = Inr s' \<and> heap s' = heap s \<and> size_op l s' = size_op l s \<and>
          get_next (head_of l s) s = Inr (head_of l s') \<and>
          get_next (tail_of l s) s = Inr (tail_of l s'))) \<and>
    (\<forall>k. \<exists>s1 s2 xs.
       repeat_op k (rotate_op l) s = Inr s1 \<and> repeat_op k (pop_append l) s = Inr s2 \<and>
       size_op l s1 = size_op l s \<and> heap s1 = heap s \<and>
       to_list l s = Inr xs \<and> to_list l s1 = Inr (rotate k xs) \<and> to_list l s2 = Inr (rotate k xs) \<and>
       front_value l s1 = front_value l s2)"
proof (intro conjI impI allI)
  assume "size_op l s \<le> 1"
  with ring_size [OF assms(1)] have "length as \<le> 1" by simp
  then have "rotate1 as = as" by (cases as) auto
  then have "rotate_post l as s = s"
    using lists_upd_same [OF ring_lists [OF assms(1)]] by (simp add: rotate_post_def)
  with rotate_op_ring [OF assms(1)] show "rotate_op l s = Inr s" by simp
next
  assume "2 \<le> size_op l s"
  with ring_size [OF assms(1)] have n: "2 \<le> length as" by simp
  let ?s' = "rotate_post l as s"
  note R = rotate_post_ring [OF assms(1)]
  from n have ne: "as \<noteq> []" by auto
  have h: "head_of l s = Some (as ! 0)" "tail_of l s = Some (as ! (length as - 1))"
    using assms(1) ne by (simp_all add: ring_def first_ptr_hd hd_conv_nth last_ptr_last last_conv_nth)
  have r1: "rotate1 as \<noteq> []" using ne by simp
  have h': "head_of l ?s' = Some (rotate1 as ! 0)"
    "tail_of l ?s' = Some (rotate1 as ! (length as - 1))"
    using R r1 by (simp_all add: ring_def first_ptr_hd hd_conv_nth last_ptr_last last_conv_nth)
  have i0: "rotate1 as ! 0 = as ! 1" using n ne nth_rotate1 [of 0 as] by simp
  have i1: "rotate1 as ! (length as - 1) = as ! 0"
  proof -
    have "Suc (length as - 1) = length as" "length as - 1 < length as" using n by arith+
    with nth_rotate1 [of "length as - 1" as] show ?thesis by simp
  qed
  have g0: "get_next (Some (as ! 0)) s = Inr (Some (as ! 1))"
    using ring_next_nth [OF assms(1), of 0] n ne by simp
  have e: "Suc (length as - 1) = length as" "length as - 1 < length as" using n by arith+
  have g1: "get_next (Some (as ! (length as - 1))) s = Inr (Some (as ! 0))"
    using ring_next_nth [OF assms(1) e(2)] e(1) by simp
  have "heap ?s' = heap s" by (simp add: rotate_post_def)
  moreover have "size_op l ?s' = size_op l s"
    using ring_size [OF R] ring_size [OF assms(1)] by simp
  ultimately show "\<exists>s'. rotate_op l s = Inr s' \<and> heap s' = heap s \<and> size_op l s' = size_op l s \<and>
          get_next (head_of l s) s = Inr (head_of l s') \<and>
          get_next (tail_of l s) s = Inr (tail_of l s')"
    using rotate_op_ring [OF assms(1)] h h' i0 i1 g0 g1 by simp
next
  fix k
  let ?s1 = "rot_post l as k s"
  from repeat_rotate [OF assms(1), of k]
  have r1: "repeat_op k (rotate_op l) s = Inr ?s1" "ring ?s1 l (rotate k as)" by simp_all
  from repeat_pop_append [OF assms, of k] obtain s2 where
    s2: "repeat_op k (pop_append l) s = Inr s2" "ring s2 l (rotate k as)"
      "elems s2 (rotate k as) = rotate k (elems s as)"
    by blast
  have sz: "size_op l ?s1 = size_op l s"
    using ring_size [OF r1(2)] ring_size [OF assms(1)] by simp
  have hp: "heap ?s1 = heap s" by (simp add: rot_post_frame)
  have t0: "to_list l s = Inr (elems s as)" by (rule ring_to_list [OF assms(1)])
  have t1: "to_list l ?s1 = Inr (rotate k (elems s as))"
    using ring_to_list [OF r1(2)] by (simp add: rot_post_elems)
  have t2: "to_list l s2 = Inr (rotate k (elems s as))"
    using ring_to_list [OF s2(2)] s2(3) by simp
  have fv: "front_value l ?s1 = front_value l s2"
  proof (cases "as = []")
    case True
    with r1(2) s2(2) show ?thesis by (simp add: front_value_def front_empty)
  next
    case False
    then have "rotate k as \<noteq> []" by simp
    from front_value_ring [OF r1(2) this] front_value_ring [OF s2(2) this] s2(3)
    show ?thesis by (simp add: rot_post_elems)
  qed
  from r1(1) s2(1) sz hp t0 t1 t2 fv
  show "\<exists>s1 s2 xs.
       repeat_op k (rotate_op l) s = Inr s1 \<and> repeat_op k (pop_append l) s = Inr s2 \<and>
       size_op l s1 = size_op l s \<and> heap s1 = heap s \<and>
       to_list l s = Inr xs \<and> to_list l s1 = Inr (rotate k xs) \<and> to_list l s2 = Inr (rotate k xs) \<and>
       front_value l s1 = front_value l s2"
    by blast
qed

theorem C6_rotate_witness:
  "ring demo3 0 [10, 11, 12] \<and> heap_ok demo3 \<and> 2 \<le> size_op 0 demo3 \<and>
   (\<exists>s'. rotate_op 0 demo3 = Inr s' \<and> head_of 0 s' = Some 11 \<and> tail_of 0 s' = Some 10) \<and>
   (\<exists>s1 s2. repeat_op 2 (rotate_op 0) demo3 = Inr s1 \<and>
      repeat_op 2 (pop_append 0) demo3 = Inr s2 \<and>
      to_list 0 s1 = Inr [3, 1, 2] \<and> to_list 0 s2 = Inr [3, 1, 2]) \<and>
   ring (init_state [] :: int state) 0 [] \<and> heap_ok (init_state [] :: int state) \<and>
   size_op 0 (init_state [] :: int state) \<le> 1 \<and>
   rotate_op 0 (init_state [] :: int state) = Inr (init_state [])"
proof -
  have r: "ring demo3 0 [10, 11, 12]"
    by (simp add: ring_def last_ptr_def demo3_def field_defs)
  have ok: "heap_ok demo3" by (simp add: heap_ok_def demo3_def)
  have sz: "2 \<le> size_op 0 demo3" by (simp add: size_op_def sz_of_def demo3_def)
  have tl: "to_list 0 demo3 = Inr [1, 2, 3]"
    using ring_to_list [OF r] by (simp add: elems_def demo3_def)
  have g: "get_next (head_of 0 demo3) demo3 = Inr (Some 11)"
    "get_next (tail_of 0 demo3) demo3 = Inr (Some 10)"
    by (simp_all add: get_next_def head_of_def tail_of_def demo3_def)
  have rt: "rotate 2 [1, 2, 3 :: int] = [3, 1, 2]" by (simp add: rotate_def numeral_2_eq_2)
  have r0: "ring (init_state [] :: int state) 0 []"
    by (simp add: ring_def init_state_def field_defs)
  have ok0: "heap_ok (init_state [] :: int state)" by (simp add: heap_ok_def init_state_def)
  have sz0: "size_op 0 (init_state [] :: int state) \<le> 1"
    by (simp add: size_op_def sz_of_def init_state_def)
  note T = C6_rotate [OF r ok]
  from T sz g
  have 1: "\<exists>s'. rotate_op 0 demo3 = Inr s' \<and> head_of 0 s' = Some 11 \<and> tail_of 0 s' = Some 10"
    by auto
  from T have "\<exists>s1 s2 xs. repeat_op 2 (rotate_op 0) demo3 = Inr s1 \<and>
      repeat_op 2 (pop_append 0) demo3 = Inr s2 \<and> to_list 0 demo3 = Inr xs \<and>
      to_list 0 s1 = Inr (rotate 2 xs) \<and> to_list 0 s2 = Inr (rotate 2 xs)"
    by blast
  with tl rt
  have 2: "\<exists>s1 s2. repeat_op 2 (rotate_op 0) demo3 = Inr s1 \<and>
      repeat_op 2 (pop_append 0) demo3 = Inr s2 \<and>
      to_list 0 s1 = Inr [3, 1, 2] \<and> to_list 0 s2 = Inr [3, 1, 2]"
    by auto
  from C6_rotate [OF r0 ok0] sz0
  have 3: "rotate_op 0 (init_state [] :: int state) = Inr (init_state [])" by blast
  from r ok sz 1 2 r0 ok0 sz0 3 show ?thesis by simp
qed

lemma toggle_loop_absent:
  "ring s l as \<Longrightarrow> i \<le> length as \<Longrightarrow> \<forall>x\<in>set (elems s as). robot_id x \<noteq> ident \<Longrightarrow>
     toggle_loop i l ident s = Inr (False, [], rot_post l as (length as - i) s)"
proof (induction "length as - i" arbitrary: i s as)
  case 0
  then have "i = length as" by simp
  with "0.prems"(1) show ?case
    by (subst toggle_loop.simps) (simp add: ring_size rot_post_0)
next
  case (Suc d)
  from Suc.hyps(2) have lt: "i < length as" by simp
  then obtain a rest where as: "as = a # rest" by (cases as) auto
  note r = Suc.prems(1)
  note F = front_ring [OF r [unfolded as]]
  from Suc.prems(3) as have nid: "robot_id (hd (elems s (a # rest))) \<noteq> ident"
    by (simp add: elems_def)
  let ?s1 = "rotate_post l as s"
  note R = rotate_post_ring [OF r]
  have d: "d = length (rotate1 as) - Suc i" using Suc.hyps(2) by simp
  have le: "Suc i \<le> length (rotate1 as)" using lt by simp
  have "elems ?s1 (rotate1 as) = rotate1 (elems s as)"
    by (simp add: elems_def rotate_post_def rotate1_map)
  with Suc.prems(3) have ab: "\<forall>x\<in>set (elems ?s1 (rotate1 as)). robot_id x \<noteq> ident" by simp
  from Suc.hyps(1) [OF d R le ab]
  have "toggle_loop (Suc i) l ident ?s1 = Inr (False, [], rot_post l as (Suc (length as - Suc i)) s)"
    by (simp add: rot_post_Suc)
  moreover have "Suc (length as - Suc i) = length as - i" using lt by simp
  ultimately have "toggle_loop (Suc i) l ident ?s1 = Inr (False, [], rot_post l as (length as - i) s)"
    by simp
  with lt F nid rotate_op_ring [OF r] as show ?case
    by (subst toggle_loop.simps) (simp add: ring_size [OF r])
qed

text \<open>
  C10. Calling \<^verbatim>\<open>rotate\<close> as many times as the ring has elements gives back the very
  state the calls started from: the same head and tail, and every node untouched. So
  \<^verbatim>\<open>togglePauseById\<close>, which rotates once for each robot whose id is not the one it looks
  for, leaves the whole state as it was when no robot has that id, and reports
  \<^verbatim>\<open>Not found.\<close> (or \<^verbatim>\<open>No robots.\<close> on an empty ring).
\<close>

theorem C10_rotate_size_times:
  assumes "ring s l as"
  shows "repeat_op (size_op l s) (rotate_op l) s = Inr s \<and>
    (\<forall>(r :: Robot state) rg ident bs.
       ring r rg bs \<and> (\<forall>x\<in>set (elems r bs). robot_id x \<noteq> ident) \<longrightarrow>
       togglePauseById rg ident r =
         Inr ((if bs = [] then ''No robots.'' else ''Not found.'') @ newline, r))"
proof (intro conjI allI impI)
  from repeat_rotate [OF assms, of "length as"] rot_post_length [OF assms] ring_size [OF assms]
  show "repeat_op (size_op l s) (rotate_op l) s = Inr s" by simp
next
  fix r :: "Robot state" and rg ident bs
  assume a: "ring r rg bs \<and> (\<forall>x\<in>set (elems r bs). robot_id x \<noteq> ident)"
  then have rr: "ring r rg bs" and ab: "\<forall>x\<in>set (elems r bs). robot_id x \<noteq> ident" by simp_all
  show "togglePauseById rg ident r =
      Inr ((if bs = [] then ''No robots.'' else ''Not found.'') @ newline, r)"
  proof (cases "bs = []")
    case True
    with rr show ?thesis by (simp add: togglePauseById_def ring_size)
  next
    case False
    have "toggle_loop 0 rg ident r = Inr (False, [], rot_post rg bs (length bs - 0) r)"
      by (rule toggle_loop_absent [OF rr _ ab]) simp
    then have "toggle_loop 0 rg ident r = Inr (False, [], r)"
      by (simp add: rot_post_length [OF rr])
    with False rr show ?thesis by (simp add: togglePauseById_def ring_size)
  qed
qed

theorem C10_rotate_size_times_witness:
  "ring demo3 0 [10, 11, 12] \<and> repeat_op 3 (rotate_op 0) demo3 = Inr demo3 \<and>
   ring demo_robots 0 [30, 31] \<and> map robot_id (elems demo_robots [30, 31]) = [1, 2] \<and>
   togglePauseById 0 7 demo_robots = Inr (''Not found.'' @ newline, demo_robots)"
proof -
  have r: "ring demo3 0 [10, 11, 12]"
    by (simp add: ring_def last_ptr_def demo3_def field_defs)
  have sz: "size_op 0 demo3 = 3" by (simp add: size_op_def sz_of_def demo3_def)
  have rr: "ring demo_robots 0 [30, 31]"
    by (simp add: ring_def last_ptr_def demo_robots_def field_defs)
  have ab: "\<forall>x\<in>set (elems demo_robots [30, 31]). robot_id x \<noteq> 7"
    by (simp add: elems_def demo_robots_def)
  note T = C10_rotate_size_times [OF r]
  from T sz have 1: "repeat_op 3 (rotate_op 0) demo3 = Inr demo3" by simp
  from T rr ab
  have 2: "togglePauseById 0 7 demo_robots = Inr (''Not found.'' @ newline, demo_robots)"
    by (elim conjE allE [of _ demo_robots] allE [of _ "0 :: nat"] allE [of _ "7 :: int"]
        allE [of _ "[30, 31]"]) simp
  have ids: "map robot_id (elems demo_robots [30, 31]) = [1, 2]"
    by (simp add: elems_def demo_robots_def)
  from r 1 rr ids 2 show ?thesis by simp
qed

lemma split_pre_elems:
  assumes "set zs \<inter> set bs = {}" "set zs \<inter> set cs = {}"
  shows "elems (split_pre first second bs cs s) zs = elems s zs"
  unfolding split_pre_def using assms by (simp add: clear_post_elems)

lemma split_pre_released:
  assumes "a \<in> set bs \<union> set cs"
  shows "heap (split_pre first second bs cs s) a = None"
    "a \<in> set (avail (split_pre first second bs cs s))"
proof -
  show "heap (split_pre first second bs cs s) a = None"
  proof (cases "a \<in> set cs")
    case True
    then show ?thesis by (simp add: split_pre_def clear_post_frame)
  next
    case False
    with assms have "a \<in> set bs" by simp
    with False show ?thesis by (simp add: split_pre_def clear_post_frame)
  qed
  show "a \<in> set (avail (split_pre first second bs cs s))"
    using assms by (auto simp: split_pre_def clear_post_frame)
qed

lemma split_pre_heap_ok:
  assumes "heap_ok s" "ring s first bs" "ring s second cs" "first \<noteq> second"
    "set bs \<inter> set cs = {}"
  shows "heap_ok (split_pre first second bs cs s)"
proof -
  have 1: "heap_ok (clear_post first bs s)" by (rule clear_post_heap_ok [OF assms(1,2)])
  have 2: "ring (clear_post first bs s) second cs"
    by (rule clear_post_other [OF assms(3)]) (use assms in auto)
  show ?thesis unfolding split_pre_def by (rule clear_post_heap_ok [OF 1 2])
qed

lemma splitIntoTwo_facts:
  assumes r: "ring s this as" and r1: "ring s first bs" and r2: "ring s second cs"
    and ids: "this \<noteq> first" "this \<noteq> second" "first \<noteq> second"
    and dj: "set as \<inter> set bs = {}" "set as \<inter> set cs = {}" "set bs \<inter> set cs = {}"
  defines "s' \<equiv> split_post this first second as (split_pre first second bs cs s)"
  shows "splitIntoTwo this first second s = Some (Inr s')"
    "ring s' this []"
    "ring s' first (take ((length as + 1) div 2) as)"
    "ring s' second (drop ((length as + 1) div 2) as)"
    "set zs \<subseteq> set as \<Longrightarrow> elems s' zs = elems s zs"
    "a \<in> set bs \<union> set cs \<Longrightarrow> heap s' a = None \<and> a \<in> set (avail s')"
    "heap_ok s \<Longrightarrow> heap_ok s'"
proof -
  let ?s2 = "split_pre first second bs cs s"
  note P = split_pre_rings [OF r r1 r2 ids dj]
  show "splitIntoTwo this first second s = Some (Inr s')"
    unfolding s'_def by (rule splitIntoTwo_ring [OF r r1 r2 ids dj])
  show "ring s' this []" "ring s' first (take ((length as + 1) div 2) as)"
    "ring s' second (drop ((length as + 1) div 2) as)"
    unfolding s'_def
    by (rule split_post_ring(1) [OF P(1,2,3) ids(1,2)],
        rule split_post_ring(2) [OF P(1,2,3) ids(1,2) ids(3)],
        rule split_post_ring(3) [OF P(1,2,3) ids(1,2)])
  show "elems s' zs = elems s zs" if "set zs \<subseteq> set as"
  proof -
    from that dj have "set zs \<inter> set bs = {}" "set zs \<inter> set cs = {}" by auto
    then show ?thesis unfolding s'_def by (simp add: split_post_elems split_pre_elems)
  qed
  show "heap s' a = None \<and> a \<in> set (avail s')" if "a \<in> set bs \<union> set cs"
    unfolding s'_def using split_pre_released [OF that, of first second s]
    by (simp add: split_post_live [OF P(1)] split_post_avail)
  show "heap_ok s'" if "heap_ok s"
    unfolding s'_def
    by (rule split_post_heap_ok [OF split_pre_heap_ok [OF that r1 r2 ids(3) dj(3)] P(1)])
qed

lemma elems_take: "elems s (take n as) = take n (elems s as)"
  by (simp add: elems_def take_map)

lemma elems_drop: "elems s (drop n as) = drop n (elems s as)"
  by (simp add: elems_def drop_map)

lemma elems_length: "length (elems s as) = length as"
  by (simp add: elems_def)

text \<open>
  C1. \<^verbatim>\<open>splitIntoTwo\<close> on a ring of \<open>n\<close> elements, with three distinct rings that share
  no node: the call returns, the receiver is empty, \<^verbatim>\<open>outFirst\<close> has \<open>\<lceil>n/2\<rceil>\<close> elements
  and \<^verbatim>\<open>outSecond\<close> \<open>\<lfloor>n/2\<rfloor>\<close>, the sequence of \<^verbatim>\<open>outFirst\<close> followed by that of
  \<^verbatim>\<open>outSecond\<close> is the receiver's original sequence, and every node the two output rings
  held before the call has been deleted.
\<close>

theorem C1_splitIntoTwo:
  assumes "ring s this as" and "ring s first bs" and "ring s second cs"
    and "this \<noteq> first" and "this \<noteq> second" and "first \<noteq> second"
    and "set as \<inter> set bs = {}" and "set as \<inter> set cs = {}" and "set bs \<inter> set cs = {}"
  shows "\<exists>s' zs xs ys.
    splitIntoTwo this first second s = Some (Inr s') \<and>
    empty_op this s' \<and> size_op this s' = 0 \<and>
    size_op first s' = (size_op this s + 1) div 2 \<and>
    size_op second s' = size_op this s div 2 \<and>
    to_list this s = Inr zs \<and> to_list first s' = Inr xs \<and> to_list second s' = Inr ys \<and>
    xs @ ys = zs \<and> xs = take ((length zs + 1) div 2) zs \<and>
    (\<forall>a \<in> set bs \<union> set cs. heap s' a = None \<and> a \<in> set (avail s'))"
proof -
  define s' where "s' = split_post this first second as (split_pre first second bs cs s)"
  note S = splitIntoTwo_facts [OF assms, folded s'_def]
  let ?n1 = "(length as + 1) div 2"
  have e: "empty_op this s'" "size_op this s' = 0"
    using S(2) by (simp_all add: ring_empty_op ring_size)
  have n: "size_op this s = length as" by (rule ring_size [OF assms(1)])
  have s1: "size_op first s' = (size_op this s + 1) div 2"
    using ring_size [OF S(3)] n by simp
  have s2: "size_op second s' = size_op this s div 2"
    using ring_size [OF S(4)] n by simp
  have t0: "to_list this s = Inr (elems s as)" by (rule ring_to_list [OF assms(1)])
  have "elems s' (take ?n1 as) = elems s (take ?n1 as)"
    by (rule S(5)) (rule set_take_subset)
  then have t1: "to_list first s' = Inr (take ?n1 (elems s as))"
    using ring_to_list [OF S(3)] by (simp add: elems_take)
  have "elems s' (drop ?n1 as) = elems s (drop ?n1 as)"
    by (rule S(5)) (rule set_drop_subset)
  then have t2: "to_list second s' = Inr (drop ?n1 (elems s as))"
    using ring_to_list [OF S(4)] by (simp add: elems_drop)
  have c: "take ?n1 (elems s as) @ drop ?n1 (elems s as) = elems s as" by simp
  have x: "take ?n1 (elems s as) = take ((length (elems s as) + 1) div 2) (elems s as)"
    by (simp add: elems_length)
  have rel: "\<forall>a \<in> set bs \<union> set cs. heap s' a = None \<and> a \<in> set (avail s')"
    using S(6) by blast
  from S(1) e s1 s2 t0 t1 t2 c x rel show ?thesis by blast
qed

theorem C1_splitIntoTwo_witness:
  "ring demo5 0 [10, 11, 12, 13, 14] \<and> ring demo5 1 [20] \<and> ring demo5 2 [] \<and>
   (\<exists>s'. splitIntoTwo 0 1 2 demo5 = Some (Inr s') \<and> empty_op 0 s' \<and>
      size_op 1 s' = 3 \<and> size_op 2 s' = 2 \<and>
      to_list 1 s' = Inr [1, 2, 3] \<and> to_list 2 s' = Inr [4, 5] \<and> heap s' 20 = None)"
proof -
  have r: "ring demo5 0 [10, 11, 12, 13, 14]"
    by (simp add: ring_def last_ptr_def demo5_def field_defs)
  have r1: "ring demo5 1 [20]" by (simp add: ring_def last_ptr_def demo5_def field_defs)
  have r2: "ring demo5 2 []" by (simp add: ring_def demo5_def field_defs)
  have sz: "size_op 0 demo5 = 5" by (simp add: size_op_def sz_of_def demo5_def)
  have tl: "to_list 0 demo5 = Inr [1, 2, 3, 4, 5]"
    using ring_to_list [OF r] by (simp add: elems_def demo5_def)
  have ids: "(0 :: nat) \<noteq> 1" "(0 :: nat) \<noteq> 2" "(1 :: nat) \<noteq> 2" by simp_all
  have dj: "set [10, 11, 12, 13, 14 :: nat] \<inter> set [20] = {}"
    "set [10, 11, 12, 13, 14 :: nat] \<inter> set [] = {}" "set [20 :: nat] \<inter> set [] = {}"
    by simp_all
  from C1_splitIntoTwo [OF r r1 r2 ids dj] obtain s' zs xs ys where
    s': "splitIntoTwo 0 1 2 demo5 = Some (Inr s')" "empty_op 0 s'"
      "size_op 1 s' = (size_op 0 demo5 + 1) div 2" "size_op 2 s' = size_op 0 demo5 div 2"
      "to_list 0 demo5 = Inr zs" "to_list 1 s' = Inr xs" "to_list 2 s' = Inr ys"
      "xs @ ys = zs" "xs = take ((length zs + 1) div 2) zs"
      "\<forall>a \<in> set [20] \<union> set []. heap s' a = None \<and> a \<in> set (avail s')"
    by blast
  from s'(5) tl have zs: "zs = [1, 2, 3, 4, 5]" by simp
  with s'(9) have xs: "xs = [1, 2, 3]" by simp
  with s'(8) zs have ys: "ys = [4, 5]" by simp
  from s'(3,4) sz have "size_op 1 s' = 3" "size_op 2 s' = 2" by simp_all
  moreover from s'(10) have "heap s' 20 = None" by simp
  ultimately show ?thesis using r r1 r2 s'(1,2,6,7) xs ys by blast
qed

text \<open>
  C2. \<^verbatim>\<open>receiver.mergeWith(other)\<close> for two distinct rings that share no node: the call
  returns, \<^verbatim>\<open>other\<close> is empty, the receiver has the sum of the two sizes, and its
  head-to-tail sequence is its own original sequence followed by that of \<^verbatim>\<open>other\<close>. An
  empty receiver takes over head, tail and nodes of \<^verbatim>\<open>other\<close> with no node changed; with
  an empty \<^verbatim>\<open>other\<close> the state stays as it is.
\<close>

theorem C2_mergeWith:
  assumes "ring s l as" and "ring s l2 bs" and "l \<noteq> l2" and "set as \<inter> set bs = {}"
  shows "\<exists>s' xs ys.
    mergeWith l l2 s = Inr s' \<and> empty_op l2 s' \<and> size_op l2 s' = 0 \<and>
    size_op l s' = size_op l s + size_op l2 s \<and>
    to_list l s = Inr xs \<and> to_list l2 s = Inr ys \<and> to_list l s' = Inr (xs @ ys) \<and>
    (empty_op l s \<longrightarrow>
       head_of l s' = head_of l2 s \<and> tail_of l s' = tail_of l2 s \<and> heap s' = heap s) \<and>
    (empty_op l2 s \<longrightarrow> s' = s)"
proof -
  let ?s' = "merge_post l l2 as bs s"
  note M = merge_post_ring [OF assms]
  have m: "mergeWith l l2 s = Inr ?s'" by (rule mergeWith_ring [OF assms])
  have e: "empty_op l2 ?s'" "size_op l2 ?s' = 0"
    using M(2) by (simp_all add: ring_empty_op ring_size)
  have sz: "size_op l ?s' = size_op l s + size_op l2 s"
    using ring_size [OF M(1)] ring_size [OF assms(1)] ring_size [OF assms(2)] by simp
  have t0: "to_list l s = Inr (elems s as)" "to_list l2 s = Inr (elems s bs)"
    by (rule ring_to_list [OF assms(1)], rule ring_to_list [OF assms(2)])
  have t1: "to_list l ?s' = Inr (elems s as @ elems s bs)"
    using ring_to_list [OF M(1)] merge_post_elems [OF assms(1,2)] by simp
  have a: "head_of l ?s' = head_of l2 s \<and> tail_of l ?s' = tail_of l2 s \<and> heap ?s' = heap s"
    if "empty_op l s"
  proof -
    from that assms(1) have as: "as = []" by (simp add: ring_empty_op)
    then have "heap ?s' = heap s" by (simp add: merge_post_def)
    moreover from M(1) assms(2) as
    have "head_of l ?s' = head_of l2 s" "tail_of l ?s' = tail_of l2 s"
      by (simp_all add: ring_def)
    ultimately show ?thesis by simp
  qed
  have b: "?s' = s" if "empty_op l2 s"
  proof -
    from that assms(2) have "bs = []" by (simp add: ring_empty_op)
    then show ?thesis by (simp add: merge_post_def)
  qed
  from m e sz t0 t1 a b show ?thesis by blast
qed

theorem C2_mergeWith_witness:
  "ring demo5 0 [10, 11, 12, 13, 14] \<and> ring demo5 1 [20] \<and> ring demo5 2 [] \<and>
   (\<exists>s'. mergeWith 0 1 demo5 = Inr s' \<and> size_op 1 s' = 0 \<and> size_op 0 s' = 6 \<and>
      to_list 0 s' = Inr [1, 2, 3, 4, 5, 7]) \<and>
   empty_op 2 demo5 \<and>
   (\<exists>s'. mergeWith 2 1 demo5 = Inr s' \<and> head_of 2 s' = Some 20 \<and> to_list 2 s' = Inr [7]) \<and>
   mergeWith 0 2 demo5 = Inr demo5"
proof -
  have r: "ring demo5 0 [10, 11, 12, 13, 14]"
    by (simp add: ring_def last_ptr_def demo5_def field_defs)
  have r1: "ring demo5 1 [20]" by (simp add: ring_def last_ptr_def demo5_def field_defs)
  have r2: "ring demo5 2 []" by (simp add: ring_def demo5_def field_defs)
  have sz: "size_op 0 demo5 = 5" "size_op 1 demo5 = 1"
    by (simp_all add: size_op_def sz_of_def demo5_def)
  have tl: "to_list 0 demo5 = Inr [1, 2, 3, 4, 5]"
    using ring_to_list [OF r] by (simp add: elems_def demo5_def)
  have tl1: "to_list 1 demo5 = Inr [7]"
    using ring_to_list [OF r1] by (simp add: elems_def demo5_def)
  have tl2: "to_list 2 demo5 = Inr []"
    using ring_to_list [OF r2] by (simp add: elems_def)
  have e2: "empty_op 2 demo5" by (simp add: empty_op_def head_of_def demo5_def)
  have h1: "head_of 1 demo5 = Some 20" by (simp add: head_of_def demo5_def)
  have ids: "(0 :: nat) \<noteq> 1" "(2 :: nat) \<noteq> 1" "(0 :: nat) \<noteq> 2" by simp_all
  have dj: "set [10, 11, 12, 13, 14 :: nat] \<inter> set [20] = {}"
    "set ([] :: nat list) \<inter> set [20] = {}" "set [10, 11, 12, 13, 14 :: nat] \<inter> set [] = {}"
    by simp_all
  from C2_mergeWith [OF r r1 ids(1) dj(1)] sz tl tl1
  have 1: "\<exists>s'. mergeWith 0 1 demo5 = Inr s' \<and> size_op 1 s' = 0 \<and> size_op 0 s' = 6 \<and>
      to_list 0 s' = Inr [1, 2, 3, 4, 5, 7]"
    by auto
  from C2_mergeWith [OF r2 r1 ids(2) dj(2)] e2 h1 tl1 tl2
  have 2: "\<exists>s'. mergeWith 2 1 demo5 = Inr s' \<and> head_of 2 s' = Some 20 \<and> to_list 2 s' = Inr [7]"
    by auto
  from C2_mergeWith [OF r r2 ids(3) dj(3)] e2
  have 3: "mergeWith 0 2 demo5 = Inr demo5" by auto
  from r r1 r2 1 e2 2 3 show ?thesis by simp
qed

text \<open>
  C3. Splitting a ring and then merging \<^verbatim>\<open>outFirst\<close> with \<^verbatim>\<open>outSecond\<close>, in that order,
  gives \<^verbatim>\<open>outFirst\<close> the head-to-tail sequence the split ring had, and leaves the
  merged-from ring \<^verbatim>\<open>outSecond\<close> with size 0.
\<close>

theorem C3_split_then_merge:
  assumes "ring s this as" and "ring s first bs" and "ring s second cs"
    and "this \<noteq> first" and "this \<noteq> second" and "first \<noteq> second"
    and "set as \<inter> set bs = {}" and "set as \<inter> set cs = {}" and "set bs \<inter> set cs = {}"
  shows "\<exists>s1 s2 zs.
    splitIntoTwo this first second s = Some (Inr s1) \<and> mergeWith first second s1 = Inr s2 \<and>
    to_list this s = Inr zs \<and> to_list first s2 = Inr zs \<and>
    size_op first s2 = size_op this s \<and> size_op second s2 = 0"
proof -
  define s1 where "s1 = split_post this first second as (split_pre first second bs cs s)"
  note S = splitIntoTwo_facts [OF assms, folded s1_def]
  let ?xs = "take ((length as + 1) div 2) as"
  let ?ys = "drop ((length as + 1) div 2) as"
  have cat: "?xs @ ?ys = as" by simp
  have "distinct (?xs @ ?ys)" using ring_distinct [OF assms(1)] by simp
  then have dj: "set ?xs \<inter> set ?ys = {}" using distinct_append [of ?xs ?ys] by blast
  let ?s2 = "merge_post first second ?xs ?ys s1"
  note M = merge_post_ring [OF S(3,4) assms(6) dj]
  have m: "mergeWith first second s1 = Inr ?s2"
    by (rule mergeWith_ring [OF S(3,4) assms(6) dj])
  have r: "ring ?s2 first as" using M(1) by simp
  have "elems ?s2 (?xs @ ?ys) = elems s1 ?xs @ elems s1 ?ys"
    by (rule merge_post_elems [OF S(3,4)])
  also have "\<dots> = elems s1 (?xs @ ?ys)" by (simp only: elems_def map_append)
  also have "\<dots> = elems s1 as" by simp
  also have "\<dots> = elems s as" by (rule S(5)) simp
  finally have e: "elems ?s2 as = elems s as" by simp
  have t0: "to_list this s = Inr (elems s as)" by (rule ring_to_list [OF assms(1)])
  have t1: "to_list first ?s2 = Inr (elems s as)" using ring_to_list [OF r] e by simp
  have sz: "size_op first ?s2 = size_op this s" "size_op second ?s2 = 0"
    using ring_size [OF r] ring_size [OF assms(1)] ring_size [OF M(2)] by simp_all
  from S(1) m t0 t1 sz show ?thesis by blast
qed

theorem C3_split_then_merge_witness:
  "ring demo5 0 [10, 11, 12, 13, 14] \<and> ring demo5 1 [20] \<and> ring demo5 2 [] \<and>
   (\<exists>s1 s2. splitIntoTwo 0 1 2 demo5 = Some (Inr s1) \<and> mergeWith 1 2 s1 = Inr s2 \<and>
      to_list 1 s2 = Inr [1, 2, 3, 4, 5] \<and> size_op 2 s2 = 0)"
proof -
  have r: "ring demo5 0 [10, 11, 12, 13, 14]"
    by (simp add: ring_def last_ptr_def demo5_def field_defs)
  have r1: "ring demo5 1 [20]" by (simp add: ring_def last_ptr_def demo5_def field_defs)
  have r2: "ring demo5 2 []" by (simp add: ring_def demo5_def field_defs)
  have tl: "to_list 0 demo5 = Inr [1, 2, 3, 4, 5]"
    using ring_to_list [OF r] by (simp add: elems_def demo5_def)
  have ids: "(0 :: nat) \<noteq> 1" "(0 :: nat) \<noteq> 2" "(1 :: nat) \<noteq> 2" by simp_all
  have dj: "set [10, 11, 12, 13, 14 :: nat] \<inter> set [20] = {}"
    "set [10, 11, 12, 13, 14 :: nat] \<inter> set [] = {}" "set [20 :: nat] \<inter> set [] = {}"
    by simp_all
  from C3_split_then_merge [OF r r1 r2 ids dj] tl
  have "\<exists>s1 s2. splitIntoTwo 0 1 2 demo5 = Some (Inr s1) \<and> mergeWith 1 2 s1 = Inr s2 \<and>
      to_list 1 s2 = Inr [1, 2, 3, 4, 5] \<and> size_op 2 s2 = 0"
    by auto
  with r r1 r2 show ?thesis by simp
qed

lemma wf_stateI:
  assumes "heap_ok s" "\<And>l. ring s l (own l)"
    "\<And>l l'. l \<noteq> l' \<Longrightarrow> set (own l) \<inter> set (own l') = {}"
  shows "wf_state s"
  unfolding wf_state_def using assms by blast

lemma wf_init: "distinct free \<Longrightarrow> wf_state (init_state free)"
  by (rule wf_stateI [where own = "\<lambda>l. []"])
    (simp_all add: heap_ok_def init_state_def ring_Nil field_defs)

lemma wf_append:
  assumes w: "wf_state s" and a: "append_op l v s = Inr s'"
  shows "wf_state s'"
proof -
  from w have ok: "heap_ok s" by (simp add: wf_state_def)
  from w obtain own where R: "\<forall>l. ring s l (own l)"
    and D: "\<forall>l l'. l \<noteq> l' \<longrightarrow> set (own l) \<inter> set (own l') = {}"
    unfolding wf_state_def by blast
  have r: "ring s l (own l)" for l using R by blast
  have dj: "set (own l) \<inter> set (own l') = {}" if "l \<noteq> l'" for l l' using D that by blast
  from a have "avail s \<noteq> []" using append_fail [of s l v] by auto
  then obtain x rest where av: "avail s = x # rest" by (cases "avail s") auto
  note A = append_op_facts [OF r ok av, of l v]
  from a A(1) have s': "s' = append_post l v (own l) s" by simp
  have fresh: "x \<notin> set (own l')" for l'
    by (rule avail_fresh [OF ok r]) (simp add: av)
  show ?thesis
  proof (rule wf_stateI [where own = "own(l := own l @ [x])"])
    show "heap_ok s'" unfolding s' by (rule A(3))
  next
    fix l'
    show "ring s' l' ((own(l := own l @ [x])) l')"
    proof (cases "l' = l")
      case True
      then show ?thesis unfolding s' using A(2) by simp
    next
      case False
      have "ring s' l' (own l')"
      proof (rule ring_frame [OF r])
        show "lists s' l' = lists s l'" unfolding s' using False by (simp add: append_post_frame)
        show "\<forall>a\<in>set (own l'). heap s' a = heap s a"
        proof
          fix a assume m: "a \<in> set (own l')"
          with fresh [of l'] have "a \<noteq> hd (avail s)" using av by auto
          moreover from m dj [OF False] have "a \<notin> set (own l)" by auto
          ultimately show "heap s' a = heap s a" unfolding s' by (simp add: append_post_frame)
        qed
      qed
      with False show ?thesis by simp
    qed
  next
    fix l1 l2 :: lid
    assume "l1 \<noteq> l2"
    then show "set ((own(l := own l @ [x])) l1) \<inter> set ((own(l := own l @ [x])) l2) = {}"
      using dj [of l1 l2] dj [of l l2] dj [of l1 l] fresh [of l1] fresh [of l2] by auto
  qed
qed

lemma wf_append_throws:
  assumes w: "wf_state s" and a: "append_op l v s = Inl (BadAlloc s')"
  shows "wf_state s'"
proof (cases "avail s")
  case Nil
  with a append_fail [of s l v] have "s' = s" by simp
  with w show ?thesis by simp
next
  case (Cons x rest)
  from w have ok: "heap_ok s" by (simp add: wf_state_def)
  from w obtain own where R: "\<forall>l. ring s l (own l)"
    unfolding wf_state_def by blast
  have r: "ring s l (own l)" for l using R by blast
  from append_op_facts(1) [OF r ok Cons, of l v] a show ?thesis by simp
qed

lemma wf_pop_front:
  assumes w: "wf_state s" and a: "pop_front l s = Inr (b, s')"
  shows "wf_state s'"
proof -
  from w have ok: "heap_ok s" by (simp add: wf_state_def)
  from w obtain own where R: "\<forall>l. ring s l (own l)"
    and D: "\<forall>l l'. l \<noteq> l' \<longrightarrow> set (own l) \<inter> set (own l') = {}"
    unfolding wf_state_def by blast
  have r: "ring s l (own l)" for l using R by blast
  have dj: "set (own l) \<inter> set (own l') = {}" if "l \<noteq> l'" for l l' using D that by blast
  show ?thesis
  proof (cases "own l")
    case Nil
    with r [of l] have "pop_front l s = Inr (False, s)" by (simp add: pop_front_empty)
    with a w show ?thesis by simp
  next
    case (Cons x rest)
    from r [of l] Cons have rl: "ring s l (x # rest)" by simp
    note P = pop_front_facts [OF rl ok]
    from a P(1) have s': "s' = pop_post l (x # rest) s" by simp
    show ?thesis
    proof (rule wf_stateI [where own = "own(l := rest)"])
      show "heap_ok s'" unfolding s' by (rule P(3))
    next
      fix l'
      show "ring s' l' ((own(l := rest)) l')"
      proof (cases "l' = l")
        case True
        then show ?thesis unfolding s' using P(2) by simp
      next
        case False
        have "ring s' l' (own l')"
        proof (rule ring_frame [OF r])
          show "lists s' l' = lists s l'" unfolding s' using False by (simp add: pop_post_frame)
          show "\<forall>a\<in>set (own l'). heap s' a = heap s a"
          proof
            fix a assume "a \<in> set (own l')"
            with dj [OF False] Cons have "a \<notin> set (x # rest)" by auto
            then show "heap s' a = heap s a" unfolding s' by (rule pop_post_heap_frame)
          qed
        qed
        with False show ?thesis by simp
      qed
    next
      fix l1 l2 :: lid
      assume "l1 \<noteq> l2"
      then show "set ((own(l := rest)) l1) \<inter> set ((own(l := rest)) l2) = {}"
        using dj [of l1 l2] dj [of l l2] dj [of l1 l] Cons by auto
    qed
  qed
qed

lemma wf_rotate:
  assumes w: "wf_state s" and a: "rotate_op l s = Inr s'"
  shows "wf_state s'"
proof -
  from w have ok: "heap_ok s" by (simp add: wf_state_def)
  from w obtain own where R: "\<forall>l. ring s l (own l)"
    and D: "\<forall>l l'. l \<noteq> l' \<longrightarrow> set (own l) \<inter> set (own l') = {}"
    unfolding wf_state_def by blast
  have r: "ring s l (own l)" for l using R by blast
  have dj: "set (own l) \<inter> set (own l') = {}" if "l \<noteq> l'" for l l' using D that by blast
  from a rotate_op_ring [OF r] have s': "s' = rotate_post l (own l) s" by simp
  show ?thesis
  proof (rule wf_stateI [where own = "own(l := rotate1 (own l))"])
    show "heap_ok s'" unfolding s' using ok by (simp add: heap_ok_def rotate_post_def)
  next
    fix l'
    show "ring s' l' ((own(l := rotate1 (own l))) l')"
    proof (cases "l' = l")
      case True
      then show ?thesis unfolding s' using rotate_post_ring [OF r] by simp
    next
      case False
      have "ring s' l' (own l')"
        by (rule ring_frame [OF r]) (use False in \<open>simp_all add: s' rotate_post_def\<close>)
      with False show ?thesis by simp
    qed
  next
    fix l1 l2 :: lid
    assume "l1 \<noteq> l2"
    then show "set ((own(l := rotate1 (own l))) l1) \<inter> set ((own(l := rotate1 (own l))) l2) = {}"
      using dj [of l1 l2] by auto
  qed
qed

lemma wf_clear:
  assumes w: "wf_state s" and a: "clear l s = Inr s'"
  shows "wf_state s'"
proof -
  from w have ok: "heap_ok s" by (simp add: wf_state_def)
  from w obtain own where R: "\<forall>l. ring s l (own l)"
    and D: "\<forall>l l'. l \<noteq> l' \<longrightarrow> set (own l) \<inter> set (own l') = {}"
    unfolding wf_state_def by blast
  have r: "ring s l (own l)" for l using R by blast
  have dj: "set (own l) \<inter> set (own l') = {}" if "l \<noteq> l'" for l l' using D that by blast
  from a clear_ring [OF r] have s': "s' = clear_post l (own l) s" by simp
  show ?thesis
  proof (rule wf_stateI [where own = "own(l := [])"])
    show "heap_ok s'" unfolding s' by (rule clear_post_heap_ok [OF ok r])
  next
    fix l'
    show "ring s' l' ((own(l := [])) l')"
    proof (cases "l' = l")
      case True
      then show ?thesis unfolding s' using clear_post_ring [of l "own l" s] by simp
    next
      case False
      have "ring s' l' (own l')"
        unfolding s' by (rule clear_post_other [OF r False]) (use dj [of l l'] False in auto)
      with False show ?thesis by simp
    qed
  next
    fix l1 l2 :: lid
    assume "l1 \<noteq> l2"
    then show "set ((own(l := [])) l1) \<inter> set ((own(l := [])) l2) = {}"
      using dj [of l1 l2] by auto
  qed
qed

lemma ring_data_upd:
  assumes "ring s l as" "heap s r = Some nd"
  shows "ring (s\<lparr>heap := (heap s)(r \<mapsto> nd\<lparr>data := v\<rparr>)\<rparr>) l as"
  using assms by (simp add: ring_def field_defs path_data_upd)

lemma wf_front_write:
  assumes w: "wf_state s" and f: "front l s = Inr r" and a: "write_ref r v s = Inr s'"
  shows "wf_state s'"
proof -
  from w have ok: "heap_ok s" by (simp add: wf_state_def)
  from w obtain own where R: "\<forall>l. ring s l (own l)"
    and D: "\<forall>l l'. l \<noteq> l' \<longrightarrow> set (own l) \<inter> set (own l') = {}"
    unfolding wf_state_def by blast
  have rg: "ring s l (own l)" for l using R by blast
  have dj: "set (own l) \<inter> set (own l') = {}" if "l \<noteq> l'" for l l' using D that by blast
  from a obtain nd where nd: "heap s r = Some nd"
    and s': "s' = s\<lparr>heap := (heap s)(r \<mapsto> nd\<lparr>data := v\<rparr>)\<rparr>"
    by (auto simp: write_ref_def split: option.splits)
  show ?thesis
  proof (rule wf_stateI [where own = own])
    from nd ok have "r \<notin> set (avail s)" by (auto simp: heap_ok_def)
    with ok show "heap_ok s'" unfolding s' by (auto simp: heap_ok_def)
  next
    fix l' show "ring s' l' (own l')" unfolding s' by (rule ring_data_upd [OF rg nd])
  next
    fix l1 l2 :: lid
    assume "l1 \<noteq> l2"
    then show "set (own l1) \<inter> set (own l2) = {}" by (rule dj)
  qed
qed

lemma wf_merge:
  assumes w: "wf_state s" and ne: "l \<noteq> l2" and a: "mergeWith l l2 s = Inr s'"
  shows "wf_state s'"
proof -
  from w have ok: "heap_ok s" by (simp add: wf_state_def)
  from w obtain own where R: "\<forall>l. ring s l (own l)"
    and D: "\<forall>l l'. l \<noteq> l' \<longrightarrow> set (own l) \<inter> set (own l') = {}"
    unfolding wf_state_def by blast
  have r: "ring s l (own l)" for l using R by blast
  have dj: "set (own l) \<inter> set (own l') = {}" if "l \<noteq> l'" for l l' using D that by blast
  let ?as = "own l" and ?bs = "own l2"
  note d = dj [OF ne]
  from a mergeWith_ring [OF r r ne d] have s': "s' = merge_post l l2 ?as ?bs s" by simp
  note M = merge_post_ring [OF r r ne d]
  show ?thesis
  proof (rule wf_stateI [where own = "own(l := ?as @ ?bs, l2 := [])"])
    show "heap_ok s'" unfolding s' by (rule merge_post_heap_ok [OF ok r r])
  next
    fix l'
    consider "l' = l2" | "l' = l" "l' \<noteq> l2" | "l' \<noteq> l" "l' \<noteq> l2" by blast
    then show "ring s' l' ((own(l := ?as @ ?bs, l2 := [])) l')"
    proof cases
      case 1
      then show ?thesis unfolding s' using M(2) by simp
    next
      case 2
      then show ?thesis unfolding s' using M(1) by simp
    next
      case 3
      have "ring s' l' (own l')"
      proof (rule ring_frame [OF r])
        show "lists s' l' = lists s l'" unfolding s' using 3 by (simp add: merge_post_frame)
        show "\<forall>a\<in>set (own l'). heap s' a = heap s a"
        proof
          fix a assume "a \<in> set (own l')"
          with dj [of l' l] dj [of l' l2] 3 have "a \<notin> set ?as" "a \<notin> set ?bs" by auto
          then show "heap s' a = heap s a" unfolding s' by (rule merge_post_heap_frame)
        qed
      qed
      with 3 show ?thesis by simp
    qed
  next
    fix l1 l3 :: lid
    assume "l1 \<noteq> l3"
    then show "set ((own(l := ?as @ ?bs, l2 := [])) l1) \<inter>
        set ((own(l := ?as @ ?bs, l2 := [])) l3) = {}"
      using dj [of l1 l3] dj [of l l3] dj [of l1 l] dj [of l2 l3] dj [of l1 l2] by auto
  qed
qed

lemma split_post_lists_other:
  "l' \<noteq> this \<Longrightarrow> l' \<noteq> first \<Longrightarrow> l' \<noteq> second \<Longrightarrow>
     lists (split_post this first second as s) l' = lists s l'"
  by (simp add: split_post_def Let_def)

lemma split_pre_frame:
  "l' \<noteq> first \<Longrightarrow> l' \<noteq> second \<Longrightarrow> lists (split_pre first second bs cs s) l' = lists s l'"
  "x \<notin> set bs \<Longrightarrow> x \<notin> set cs \<Longrightarrow> heap (split_pre first second bs cs s) x = heap s x"
  by (simp_all add: split_pre_def clear_post_frame)

lemma wf_split:
  assumes w: "wf_state s" and ids: "this \<noteq> first" "this \<noteq> second" "first \<noteq> second"
    and a: "splitIntoTwo this first second s = Some (Inr s')"
  shows "wf_state s'"
proof -
  from w have ok: "heap_ok s" by (simp add: wf_state_def)
  from w obtain own where R: "\<forall>l. ring s l (own l)"
    and D: "\<forall>l l'. l \<noteq> l' \<longrightarrow> set (own l) \<inter> set (own l') = {}"
    unfolding wf_state_def by blast
  have r: "ring s l (own l)" for l using R by blast
  have dj: "set (own l) \<inter> set (own l') = {}" if "l \<noteq> l'" for l l' using D that by blast
  define as where "as = own this"
  define bs where "bs = own first"
  define cs where "cs = own second"
  define xs where "xs = take ((length as + 1) div 2) as"
  define ys where "ys = drop ((length as + 1) div 2) as"
  note rs = r [of this, folded as_def] r [of first, folded bs_def] r [of second, folded cs_def]
  note ds = dj [OF ids(1), folded as_def bs_def] dj [OF ids(2), folded as_def cs_def]
    dj [OF ids(3), folded bs_def cs_def]
  note S = splitIntoTwo_facts [OF rs ids ds]
  from a S(1) have s': "s' = split_post this first second as (split_pre first second bs cs s)"
    by simp
  have cat: "xs @ ys = as" by (simp add: xs_def ys_def)
  have "distinct (xs @ ys)" using ring_distinct [OF rs(1)] cat by simp
  then have dxy: "set xs \<inter> set ys = {}" by simp
  have sub: "set xs \<subseteq> set as" "set ys \<subseteq> set as" using cat by auto
  show ?thesis
  proof (rule wf_stateI [where own = "own(this := [], first := xs, second := ys)"])
    show "heap_ok s'" unfolding s' by (rule S(7) [OF ok])
  next
    fix l'
    consider "l' = second" | "l' = first" | "l' = this"
      | "l' \<noteq> this" "l' \<noteq> first" "l' \<noteq> second" by blast
    then show "ring s' l' ((own(this := [], first := xs, second := ys)) l')"
    proof cases
      case 1
      then show ?thesis unfolding s' ys_def using S(4) by simp
    next
      case 2
      then show ?thesis unfolding s' xs_def using S(3) ids by simp
    next
      case 3
      then show ?thesis unfolding s' using S(2) ids by simp
    next
      case 4
      have "ring s' l' (own l')"
      proof (rule ring_frame [OF r])
        show "lists s' l' = lists s l'"
          unfolding s' using 4 by (simp add: split_post_lists_other split_pre_frame)
        show "\<forall>x\<in>set (own l'). heap s' x = heap s x"
        proof
          fix x assume "x \<in> set (own l')"
          with dj [of l' this] dj [of l' first] dj [of l' second] 4
          have "x \<notin> set as" "x \<notin> set bs" "x \<notin> set cs"
            unfolding as_def bs_def cs_def by auto
          then show "heap s' x = heap s x"
            unfolding s' by (simp add: split_post_heap_frame split_pre_frame)
        qed
      qed
      with 4 show ?thesis by simp
    qed
  next
    fix l1 l2 :: lid
    assume n: "l1 \<noteq> l2"
    have o: "set xs \<inter> set (own l) = {}" "set ys \<inter> set (own l) = {}" if "l \<noteq> this" for l
      using dj [OF that] sub unfolding as_def by auto
    from n dxy o [of l1] o [of l2] dj [of l1 l2]
    show "set ((own(this := [], first := xs, second := ys)) l1) \<inter>
        set ((own(this := [], first := xs, second := ys)) l2) = {}"
      using ids by auto
  qed
qed

lemma wf_owned: "wf_state s \<longleftrightarrow> (\<exists>own. owned s own)"
  by (auto simp: wf_state_def owned_def)

lemma ownedD:
  assumes "owned s own"
  shows "heap_ok s" "ring s l (own l)" "l \<noteq> l' \<Longrightarrow> set (own l) \<inter> set (own l') = {}"
  using assms by (auto simp: owned_def)

lemma owned_clear:
  assumes o: "owned s own"
  shows "clear l s = Inr (clear_post l (own l) s)"
    "owned (clear_post l (own l) s) (own(l := []))"
proof -
  note ok = ownedD(1) [OF o] and r = ownedD(2) [OF o] and dj = ownedD(3) [OF o]
  let ?s' = "clear_post l (own l) s"
  show "clear l s = Inr ?s'" by (rule clear_ring [OF r])
  have 1: "heap_ok ?s'" by (rule clear_post_heap_ok [OF ok r])
  have 2: "ring ?s' l' ((own(l := [])) l')" for l'
  proof (cases "l' = l")
    case True
    then show ?thesis using clear_post_ring [of l "own l" s] by simp
  next
    case False
    have "ring ?s' l' (own l')"
      by (rule clear_post_other [OF r False]) (use dj [of l l'] False in auto)
    with False show ?thesis by simp
  qed
  have 3: "set ((own(l := [])) l1) \<inter> set ((own(l := [])) l2) = {}" if "l1 \<noteq> l2" for l1 l2
    using dj [OF that] by auto
  from 1 2 3 show "owned ?s' (own(l := []))" unfolding owned_def by blast
qed

text \<open>mergeWith with one ring as receiver and argument\<close>

lemma mergeWith_self:
  assumes r: "ring s l as"
  shows "mergeWith l l s = Inr (if as = [] then s else merge_self_post l s)"
proof (cases "as = []")
  case True
  with r show ?thesis by (simp add: mergeWith_def empty_op_def ring_Nil)
next
  case False
  from False obtain a0 where fa: "first_ptr as = Some a0" by (auto simp: first_ptr_hd)
  from False obtain t where la: "last_ptr as = Some t" by (auto simp: last_ptr_last)
  from ring_lists [OF r] fa la
  have L: "lists s l = \<lparr>head = Some a0, tail = Some t, sz = length as\<rparr>" by simp
  from ring_last_next [OF r False] L
  have "get_next (Some t) s = Inr (Some a0)" by (simp add: field_defs)
  then obtain nt where "heap s t = Some nt" "nxt nt = Some a0"
    by (auto simp: get_next_def split: option.splits)
  then obtain d where nt: "heap s t = Some \<lparr>data = d, nxt = Some a0\<rparr>"
    by (cases nt) auto
  then have idem: "(heap s)(t \<mapsto> \<lparr>data = d, nxt = Some a0\<rparr>) = heap s" by (rule map_upd_triv)
  let ?s' = "merge_self_post l s"
  have "ring ?s' l []" by (simp add: ring_Nil merge_self_post_def field_defs)
  then have c: "checked l ?s' ?s' = Inr ?s'" by (rule checked_ring)
  have "mergeWith l l s = checked l ?s' ?s'"
    using L nt idem
    by (simp add: mergeWith_def empty_op_def merge_self_post_def field_defs Let_def set_next_def)
  with c False show ?thesis by simp
qed

lemma owned_merge_self:
  assumes o: "owned s own"
  shows "owned (merge_self_post l s) (own(l := []))"
proof -
  note ok = ownedD(1) [OF o] and r = ownedD(2) [OF o] and dj = ownedD(3) [OF o]
  let ?s' = "merge_self_post l s"
  have 1: "heap_ok ?s'" using ok by (simp add: heap_ok_def merge_self_post_def)
  have 2: "ring ?s' l' ((own(l := [])) l')" for l'
  proof (cases "l' = l")
    case True
    then show ?thesis by (simp add: ring_Nil merge_self_post_def field_defs)
  next
    case False
    have "ring ?s' l' (own l')"
      by (rule ring_frame [OF r]) (use False in \<open>simp_all add: merge_self_post_def\<close>)
    with False show ?thesis by simp
  qed
  have 3: "set ((own(l := [])) l1) \<inter> set ((own(l := [])) l2) = {}" if "l1 \<noteq> l2" for l1 l2
    using dj [OF that] by auto
  from 1 2 3 show ?thesis unfolding owned_def by blast
qed

lemma wf_merge_self:
  assumes w: "wf_state s" and a: "mergeWith l l s = Inr s'"
  shows "wf_state s'"
proof -
  from w obtain own where o: "owned s own" by (auto simp: wf_owned)
  from a mergeWith_self [OF ownedD(2) [OF o], of l]
  have "s' = s \<or> s' = merge_self_post l s" by (auto split: if_splits)
  with w owned_merge_self [OF o, of l] show ?thesis by (auto simp: wf_owned)
qed

text \<open>splitIntoTwo with one ring as both outputs\<close>

lemma split_tail_alias:
  assumes r: "ring s this as" and r1: "ring s first []" and ids: "this \<noteq> first"
    and c1: "clear first s0 = Inr s1" and c2: "clear first s1 = Inr s"
  shows "splitIntoTwo this first first s0 = Some (Inr (split_alias_post this first as s))"
proof -
  consider "as = []" | a where "as = [a]" | "2 \<le> length as"
    by (cases as; cases "tl as"; auto)
  then show ?thesis
  proof cases
    case 1
    with r have "head_of this s = None" by (simp add: ring_Nil)
    with 1 show ?thesis
      by (simp add: splitIntoTwo_def c1 c2 split_alias_post_def split_post_def)
  next
    case 2
    from ring_lists [OF r] 2
    have Lt: "lists s this = \<lparr>head = Some a, tail = Some a, sz = 1\<rparr>" by simp
    from ring_lists [OF r1] have L1: "lists s first = \<lparr>head = None, tail = None, sz = 0\<rparr>"
      by simp
    from ring_live [OF r, of a] 2 obtain nd where nd: "heap s a = Some nd" by auto
    show ?thesis using 2 Lt L1 nd ids
      by (simp add: splitIntoTwo_def c1 c2 split_alias_post_def field_defs Let_def set_next_def)
  next
    case 3
    then have ane: "as \<noteq> []" by (cases as) simp_all
    then have fa: "first_ptr as = Some (as ! 0)" by (simp add: first_ptr_hd hd_conv_nth)
    with ring_lists [OF r] have h: "head_of this s = Some (as ! 0)" "sz_of this s = length as"
      by (simp_all add: field_defs)
    from ane have "2 * 0 < length as" by simp
    from split_loop_ring [OF r 3 this]
    have lp: "split_loop (Some (as ! 0)) (Some (as ! 0)) (Some (as ! 0)) s =
       Some (Inr (Some (as ! ((length as - 1) div 2)), Some (as ! (2 * ((length as - 1) div 2)))))"
      by simp
    have fin: "split_finish this first first (Some (as ! ((length as - 1) div 2)))
           (Some (as ! (2 * ((length as - 1) div 2)))) s = Inr (split_post this first first as s)"
      by (rule split_finish_ring [OF r r1 r1 ids ids 3])
    from 3 have "length as \<noteq> 1" by simp
    with h lp fin show ?thesis
      by (simp add: splitIntoTwo_def c1 c2 split_alias_post_def)
  qed
qed

lemma split_alias_owned:
  assumes o: "owned s own" and ids: "this \<noteq> first" and e: "own first = []"
  shows "owned (split_alias_post this first (own this) s)
     (own(this := [],
          first := (if length (own this) = 1 then own this
                    else drop ((length (own this) + 1) div 2) (own this))))"
proof -
  note ok = ownedD(1) [OF o] and r = ownedD(2) [OF o] and dj = ownedD(3) [OF o]
  define as where "as = own this"
  define zs where "zs = (if length as = 1 then as else drop ((length as + 1) div 2) as)"
  let ?s' = "split_alias_post this first as s"
  note rt = r [of this, folded as_def]
  from r [of first] e have rf: "ring s first []" by simp
  have sub: "set zs \<subseteq> set as" unfolding zs_def by (auto dest: in_set_dropD)
  have frame: "lists ?s' l' = lists s l'" "\<forall>x\<in>set (own l'). heap ?s' x = heap s x"
    if "l' \<noteq> this" "l' \<noteq> first" for l'
  proof -
    show "lists ?s' l' = lists s l'"
      using that by (simp add: split_alias_post_def split_post_lists_other)
    show "\<forall>x\<in>set (own l'). heap ?s' x = heap s x"
    proof
      fix x assume "x \<in> set (own l')"
      with dj [OF that(1)] have x: "x \<notin> set as" unfolding as_def by auto
      show "heap ?s' x = heap s x"
      proof (cases "length as = 1")
        case True
        then obtain a where "as = [a]" by (cases as) auto
        with x show ?thesis by (simp add: split_alias_post_def)
      next
        case False
        with x show ?thesis by (simp add: split_alias_post_def split_post_heap_frame)
      qed
    qed
  qed
  have main: "heap_ok ?s' \<and> ring ?s' this [] \<and> ring ?s' first zs"
  proof (cases "length as = 1")
    case True
    then obtain a where as: "as = [a]" by (cases as) auto
    from ring_path [OF rt] as obtain nd where nd: "heap s a = Some nd" "nxt nd = Some a"
      by (auto split: option.splits)
    have "a \<notin> set (avail s)" using avail_fresh [OF ok rt, of a] as by auto
    then have "heap_ok ?s'" using ok nd as by (auto simp: heap_ok_def split_alias_post_def)
    moreover have "ring ?s' this []"
      using as by (simp add: ring_Nil split_alias_post_def field_defs)
    moreover have "ring ?s' first [a]"
      using as nd ids by (simp add: ring_def split_alias_post_def field_defs)
    ultimately show ?thesis using as by (simp add: zs_def)
  next
    case False
    then have s': "?s' = split_post this first first as s" by (simp add: split_alias_post_def)
    have "heap_ok ?s'" unfolding s' by (rule split_post_heap_ok [OF ok rt])
    moreover have "ring ?s' this []"
      unfolding s' by (rule split_post_ring(1) [OF rt rf rf ids ids])
    moreover have "ring ?s' first zs"
      unfolding s' zs_def using False split_post_ring(3) [OF rt rf rf ids ids] by simp
    ultimately show ?thesis by simp
  qed
  have 2: "ring ?s' l' ((own(this := [], first := zs)) l')" for l'
  proof -
    consider "l' = first" | "l' = this" | "l' \<noteq> this" "l' \<noteq> first" by blast
    then show ?thesis
    proof cases
      case 1
      then show ?thesis using main by simp
    next
      case 2
      then show ?thesis using main ids by simp
    next
      case 3
      have "ring ?s' l' (own l')" by (rule ring_frame [OF r frame [OF 3]])
      with 3 show ?thesis by simp
    qed
  qed
  have 3: "set ((own(this := [], first := zs)) l1) \<inter> set ((own(this := [], first := zs)) l2) = {}"
    if "l1 \<noteq> l2" for l1 l2
  proof -
    have z: "set zs \<inter> set (own l) = {}" if "l \<noteq> this" for l
      using dj [OF that] sub unfolding as_def by auto
    from that z [of l1] z [of l2] dj [of l1 l2] show ?thesis by auto
  qed
  from main 2 3 show ?thesis unfolding owned_def as_def zs_def by blast
qed

lemma wf_split_any:
  assumes w: "wf_state s" and a: "splitIntoTwo this first second s = Some (Inr s')"
  shows "wf_state s'"
proof -
  from w obtain own where o: "owned s own" by (auto simp: wf_owned)
  define s1 where "s1 = clear_post first (own first) s"
  define own1 where "own1 = own(first := [])"
  note C1 = owned_clear [OF o, of first, folded s1_def own1_def]
  define s2 where "s2 = clear_post second (own1 second) s1"
  define own2 where "own2 = own1(second := [])"
  note C2 = owned_clear [OF C1(2), of second, folded s2_def own2_def]
  consider "this = first \<or> this = second" | "this \<noteq> first" "this \<noteq> second" "first \<noteq> second"
    | "this \<noteq> first" "first = second" by blast
  then show ?thesis
  proof cases
    case 1
    then have "own2 this = []" by (auto simp: own2_def own1_def)
    with ownedD(2) [OF C2(2), of this] have "head_of this s2 = None" by (simp add: ring_Nil)
    with a C1(1) C2(1) have "s' = s2" by (simp add: splitIntoTwo_def)
    with C2(2) show ?thesis by (auto simp: wf_owned)
  next
    case 2
    from w 2 a show ?thesis by (rule wf_split)
  next
    case 3
    have e: "own2 first = []" using 3 by (simp add: own2_def)
    have t: "own2 this = own this" using 3 by (simp add: own2_def own1_def)
    from ownedD(2) [OF C2(2), of this] have rt: "ring s2 this (own2 this)" .
    from ownedD(2) [OF C2(2), of first] e have rf: "ring s2 first []" by simp
    from C2(1) 3 have c2: "clear first s1 = Inr s2" by simp
    from split_tail_alias [OF rt rf 3(1) C1(1) c2] a 3
    have "s' = split_alias_post this first (own2 this) s2" by simp
    with split_alias_owned [OF C2(2) 3(1) e] show ?thesis by (auto simp: wf_owned)
  qed
qed

lemma wf_merge_any:
  assumes w: "wf_state s" and a: "mergeWith l l2 s = Inr s'"
  shows "wf_state s'"
proof (cases "l = l2")
  case True
  with w a show ?thesis by (auto intro: wf_merge_self)
next
  case False
  with w a show ?thesis by (auto intro: wf_merge)
qed

lemma reachable_wf: "reachable s \<Longrightarrow> wf_state s"
proof (induction rule: reachable.induct)
  case (start free)
  then show ?case by (rule wf_init)
next
  case (append_returns s l v s')
  then show ?case by (blast intro: wf_append)
next
  case (append_throws s l v s')
  then show ?case by (blast intro: wf_append_throws)
next
  case (pop_front_returns s l b s')
  then show ?case by (blast intro: wf_pop_front)
next
  case (rotate_returns s l s')
  then show ?case by (blast intro: wf_rotate)
next
  case (clear_returns s l s')
  then show ?case by (blast intro: wf_clear)
next
  case (front_write s l r v s')
  then show ?case by (blast intro: wf_front_write)
next
  case (split_returns s this first second s')
  then show ?case by (blast intro: wf_split_any)
next
  case (merge_returns s this other s')
  then show ?case by (blast intro: wf_merge_any)
qed

text \<open>
  C4. In every state that the public operations produce from empty rings, whatever rings
  the calls name, each ring satisfies the structural invariant: head absent iff tail absent iff size 0, and
  otherwise the tail's successor is the head and \<^verbatim>\<open>size\<close> steps from the head lead back
  to the head. So the invariant holds before and after every call of \<^verbatim>\<open>append\<close>,
  \<^verbatim>\<open>pop_front\<close>, \<^verbatim>\<open>rotate\<close>, \<^verbatim>\<open>clear\<close>, \<^verbatim>\<open>splitIntoTwo\<close> and \<^verbatim>\<open>mergeWith\<close>, for the
  receiver and for every other ring, and \<^verbatim>\<open>_checkInvariant\<close> passes.
\<close>

theorem C4_invariant:
  assumes "reachable s"
  shows "invariant l s \<and> checkInvariant l s = Inr ()"
proof -
  from reachable_wf [OF assms] obtain own where "\<forall>l. ring s l (own l)"
    unfolding wf_state_def by blast
  then have "ring s l (own l)" by blast
  then show ?thesis by (simp add: ring_invariant checkInvariant_ring)
qed

theorem C4_invariant_witness:
  "\<exists>s1 s2 s3. append_op 0 1 (init_state [10, 11] :: int state) = Inr s1 \<and>
     append_op 0 2 s1 = Inr s2 \<and> splitIntoTwo 0 1 2 s2 = Some (Inr s3) \<and> reachable s3 \<and>
     invariant 0 s3 \<and> invariant 1 s3 \<and> invariant 2 s3 \<and>
     checkInvariant 1 s3 = Inr () \<and> checkInvariant 2 s3 = Inr () \<and>
     size_op 0 s3 = 0 \<and> size_op 1 s3 = 1 \<and> size_op 2 s3 = 1"
proof -
  define i :: "int state" where "i = init_state [10, 11]"
  have r0: "ring i l []" for l by (simp add: i_def ring_Nil init_state_def field_defs)
  have ok0: "heap_ok i" by (simp add: i_def heap_ok_def init_state_def)
  have av0: "avail i = [10, 11]" by (simp add: i_def init_state_def)
  define s1 where "s1 = append_post 0 1 [] i"
  note A1 = append_op_facts [OF r0 ok0 av0, of 0 1, folded s1_def]
  have r1: "ring s1 l []" if "l \<noteq> 0" for l
    using that r0 [of l] by (simp add: ring_Nil field_defs s1_def append_post_frame)
  define s2 where "s2 = append_post 0 2 ([] @ [10]) s1"
  note A2 = append_op_facts [OF A1(2,3,5), of 2, folded s2_def]
  have r2: "ring s2 l []" if "l \<noteq> 0" for l
    using that r1 [of l] by (simp add: ring_Nil field_defs s2_def append_post_frame)
  have a2: "ring s2 0 [10, 11]" using A2(2) by simp
  define s3 where "s3 = split_post 0 1 2 [10, 11] (split_pre 1 2 [] [] s2)"
  have S: "splitIntoTwo 0 1 2 s2 = Some (Inr s3)" "ring s3 0 []" "ring s3 1 [10]" "ring s3 2 [11]"
    using splitIntoTwo_facts(1-4) [OF a2 r2 [of 1] r2 [of 2], folded s3_def] by simp_all
  have "reachable i" unfolding i_def by (rule reachable.start) simp
  then have "reachable s1" using A1(1) by (rule reachable.append_returns)
  then have "reachable s2" using A2(1) by (rule reachable.append_returns)
  then have re: "reachable s3" using S(1) by (rule reachable.split_returns)
  have sz: "size_op 0 s3 = 0" "size_op 1 s3 = 1" "size_op 2 s3 = 1"
    using S(2-4) by (simp_all add: ring_size)
  from A1(1) A2(1) S(1) re sz C4_invariant [OF re, of 0] C4_invariant [OF re, of 1]
    C4_invariant [OF re, of 2]
  show ?thesis unfolding i_def by blast
qed

end
